theory Spec2Isabelle
  imports Main "HOL-Library.AList" "HOL-Library.Multiset" "HOL-Library.List_Lexorder" "HOL-Library.Char_ord"
begin

section \<open>Run-time values\<close>

text \<open>
  The importer reads JSON and casts it with \<open>as\<close>; the casts are erased at run time, so
  a decoded field holds whatever value the file held. \<open>json\<close> is the type of those
  values: what \<open>JSON.parse\<close> returns, and \<open>undefined\<close> for a column or property that
  is not there. Numbers are modelled as integers (the data model's \<open>format\<close>,
  \<open>order\<close>, \<open>score\<close> and \<open>sequence\<close> are integers); an object is the association
  list of its own properties in enumeration order.
\<close>

datatype json =
    JUndefined
  | JNull
  | JBool bool
  | JNum int
  | JStr string
  | JArr "json list"
  | JObj "(string \<times> json) list"

text \<open>JavaScript truthiness, as \<open>!x\<close> and \<open>!!x\<close> read it.\<close>

fun truthy :: "json \<Rightarrow> bool" where
  "truthy JUndefined = False"
| "truthy JNull = False"
| "truthy (JBool b) = b"
| "truthy (JNum n) = (n \<noteq> 0)"
| "truthy (JStr s) = (s \<noteq> [])"
| "truthy (JArr xs) = True"
| "truthy (JObj kvs) = True"

section \<open>Splitting tag lists\<close>

text \<open>
  \<open>input.split(' ')\<close>: the pieces between single space characters; the empty string
  gives one empty piece.
\<close>

fun split_space :: "string \<Rightarrow> string list" where
  "split_space [] = [[]]"
| "split_space (c # cs) =
     (if c = CHR '' '' then [] # split_space cs
      else (case split_space cs of
              [] \<Rightarrow> [[c]]
            | t # ts \<Rightarrow> (c # t) # ts))"

text \<open>\<open>const csv = (input: string) => input.split(' ').filter((x) => !!x)\<close>\<close>

definition csv :: "string \<Rightarrow> string list" where
  "csv input = filter (\<lambda>x. x \<noteq> []) (split_space input)"

text \<open>
  \<open>xs.join(sep)\<close> for a list of strings; \<open>join '' ''\<close> is the inverse direction
  used to state the round trip of \<open>csv\<close>.
\<close>

fun join :: "string \<Rightarrow> string list \<Rightarrow> string" where
  "join sep [] = []"
| "join sep [x] = x"
| "join sep (x # y # ys) = x @ sep @ join sep (y # ys)"

section \<open>Decimal numerals and string conversion\<close>

text \<open>
  The decimal text of a number, as a template literal prints a counter or a small
  integer, and the value \<open>parseInt(ds, 10)\<close> reads from a run of digits. Both are
  exact here: the rounding of numbers above \<open>2^53\<close> is not modelled.
\<close>

definition digit_char :: "nat \<Rightarrow> char" where
  "digit_char d = char_of (48 + d)"

fun show_nat :: "nat \<Rightarrow> string" where
  "show_nat n = (if n < 10 then [digit_char n] else show_nat (n div 10) @ [digit_char (n mod 10)])"

declare show_nat.simps [simp del]

definition show_int :: "int \<Rightarrow> string" where
  "show_int i = (if i < 0 then CHR ''-'' # show_nat (nat (- i)) else show_nat (nat i))"

definition is_digit :: "char \<Rightarrow> bool" where
  "is_digit c = (48 \<le> (of_char c :: nat) \<and> (of_char c :: nat) \<le> 57)"

definition digit_val :: "char \<Rightarrow> nat" where
  "digit_val c = of_char c - 48"

definition parseInt :: "string \<Rightarrow> nat" where
  "parseInt ds = foldl (\<lambda>a c. 10 * a + digit_val c) 0 ds"

text \<open>
  The string a value turns into inside a template literal or as the argument of
  \<open>localeCompare\<close>: in an array, \<open>null\<close> and \<open>undefined\<close> elements print as nothing.
\<close>

fun to_str :: "json \<Rightarrow> string" where
  "to_str JUndefined = ''undefined''"
| "to_str JNull = ''null''"
| "to_str (JBool b) = (if b then ''true'' else ''false'')"
| "to_str (JNum n) = show_int n"
| "to_str (JStr s) = s"
| "to_str (JArr xs) = join '','' (map (\<lambda>x. if x = JUndefined \<or> x = JNull then [] else to_str x) xs)"
| "to_str (JObj kvs) = ''[object Object]''"

text \<open>
  \<open>a.localeCompare(b)\<close>, modelled as the comparison of the two strings character by
  character in code order. The importer compares the five bank kinds with it, which are
  lower-case ASCII words that differ at a letter or are a prefix of one another, so that
  every collation orders them this way; on other strings (the names of tags) the code
  order stands in for the collation of the host.
\<close>

fun localeCompare :: "string \<Rightarrow> string \<Rightarrow> int" where
  "localeCompare [] [] = 0"
| "localeCompare [] (y # ys) = - 1"
| "localeCompare (x # xs) [] = 1"
| "localeCompare (x # xs) (y # ys) =
     (if (of_char x :: nat) < of_char y then - 1
      else if (of_char y :: nat) < of_char x then 1
      else localeCompare xs ys)"

section \<open>Errors\<close>

text \<open>
  What an import can throw: the \<open>Error\<close> that \<open>err\<close> builds, with its message; a
  \<open>TypeError\<close> of the run time (a method called on a value that has none, a value
  that cannot be iterated); and the failure of the source to deliver a file as JSON.
\<close>

datatype error = Error string | TypeError | ReadError

definition bind_err :: "error + 'a \<Rightarrow> ('a \<Rightarrow> error + 'b) \<Rightarrow> error + 'b" where
  "bind_err m f = (case m of Inl e \<Rightarrow> Inl e | Inr x \<Rightarrow> f x)"

fun fold_err :: "('s \<Rightarrow> 'a \<Rightarrow> error + 's) \<Rightarrow> 's \<Rightarrow> 'a list \<Rightarrow> error + 's" where
  "fold_err f s [] = Inr s"
| "fold_err f s (x # xs) = bind_err (f s x) (\<lambda>s'. fold_err f s' xs)"

section \<open>Sorting with a comparator\<close>

text \<open>
  \<open>Array.prototype.sort(cmp)\<close> is a stable sort: \<open>sort_by\<close> is the insertion sort that
  places an element before the first one it does not compare greater than. The second
  version is for a comparator that can throw; which pairs an engine compares before a
  throw is its own choice, and the model compares the pairs that this insertion sort does.
\<close>

fun insert_by :: "('a \<Rightarrow> 'a \<Rightarrow> int) \<Rightarrow> 'a \<Rightarrow> 'a list \<Rightarrow> 'a list" where
  "insert_by c x [] = [x]"
| "insert_by c x (y # ys) = (if c x y \<le> 0 then x # y # ys else y # insert_by c x ys)"

definition sort_by :: "('a \<Rightarrow> 'a \<Rightarrow> int) \<Rightarrow> 'a list \<Rightarrow> 'a list" where
  "sort_by c xs = foldr (insert_by c) xs []"

fun insert_by_err :: "('a \<Rightarrow> 'a \<Rightarrow> error + int) \<Rightarrow> 'a \<Rightarrow> 'a list \<Rightarrow> error + 'a list" where
  "insert_by_err c x [] = Inr [x]"
| "insert_by_err c x (y # ys) =
     bind_err (c x y) (\<lambda>r.
       if r \<le> 0 then Inr (x # y # ys)
       else bind_err (insert_by_err c x ys) (\<lambda>zs. Inr (y # zs)))"

fun sort_by_err :: "('a \<Rightarrow> 'a \<Rightarrow> error + int) \<Rightarrow> 'a list \<Rightarrow> error + 'a list" where
  "sort_by_err c [] = Inr []"
| "sort_by_err c (x # xs) = bind_err (sort_by_err c xs) (insert_by_err c x)"

section \<open>The source and the imported dictionary\<close>

text \<open>
  \<open>Source\<close>: the name, the listing (file name to presence marker, in the order
  \<open>Object.keys\<close> gives) and the file reader. \<open>src_file\<close> stands for
  \<open>JSON.parse(await source.file(name))\<close>: \<open>None\<close> when the read is rejected or the
  text is not JSON.
\<close>

record Source =
  src_name :: string
  src_list :: "(string \<times> json) list"
  src_file :: "string \<Rightarrow> json option"

text \<open>
  The records as \<open>importSource\<close> builds them. A field that the code only casts
  (\<open>expression as string\<close>) holds the column as it is; a field that goes through
  \<open>csv\<close> is a list of strings.
\<close>

record RawTerm =
  r_expression :: json
  r_reading :: json
  r_definition_tags :: "string list"
  r_rules :: "string list"
  r_score :: json
  r_glossary :: json
  r_sequence :: json
  r_term_tags :: "string list"

record RawKanji =
  r_character :: json
  r_onyomi :: "string list"
  r_kunyomi :: "string list"
  r_kanji_tags :: "string list"
  r_meanings :: json
  r_stats :: json

record RawTag =
  r_name :: json
  r_category :: json
  r_order :: json
  r_description :: json
  r_tag_score :: json

record RawMeta =
  r_meta_expression :: json
  r_mode :: json
  r_data :: json

record RawDictionary =
  r_index :: json
  r_terms :: "RawTerm list"
  r_kanji :: "RawKanji list"
  r_tags :: "RawTag list"
  r_terms_meta :: "RawMeta list"
  r_kanji_meta :: "RawMeta list"

section \<open>Bank files\<close>

record BankFile =
  bank_kind :: string
  bank_file :: string
  bank_index :: nat

fun strip_prefix :: "string \<Rightarrow> string \<Rightarrow> string option" where
  "strip_prefix [] s = Some s"
| "strip_prefix (p # ps) [] = None"
| "strip_prefix (p # ps) (c # cs) = (if p = c then strip_prefix ps cs else None)"

definition strip_suffix :: "string \<Rightarrow> string \<Rightarrow> string option" where
  "strip_suffix p s = map_option rev (strip_prefix (rev p) (rev s))"

text \<open>The alternatives of the pattern, in the order the pattern lists them.\<close>

definition kinds :: "string list" where
  "kinds = [''term'', ''kanji'', ''tag'', ''term_meta'', ''kanji_meta'']"

text \<open>
  One alternative of \<open>/^(term|kanji|tag|term_meta|kanji_meta)_bank_(\d+)\.json$/\<close>:
  the name is the kind, \<open>_bank_\<close>, one or more digits and \<open>.json\<close>; the result is
  the run of digits.
\<close>

definition match_kind :: "string \<Rightarrow> string \<Rightarrow> string option" where
  "match_kind k name =
     (case strip_prefix (k @ ''_bank_'') name of
        None \<Rightarrow> None
      | Some rest \<Rightarrow>
          (case strip_suffix ''.json'' rest of
             None \<Rightarrow> None
           | Some ds \<Rightarrow> if ds \<noteq> [] \<and> list_all is_digit ds then Some ds else None))"

fun first_match :: "string list \<Rightarrow> string \<Rightarrow> (string \<times> string) option" where
  "first_match [] name = None"
| "first_match (k # ks) name =
     (case match_kind k name of
        Some ds \<Rightarrow> Some (k, ds)
      | None \<Rightarrow> first_match ks name)"

definition splitName :: "string \<Rightarrow> BankFile option" where
  "splitName name =
     (case first_match kinds name of
        None \<Rightarrow> None
      | Some (k, ds) \<Rightarrow> Some \<lparr>bank_kind = k, bank_file = name, bank_index = parseInt ds\<rparr>)"

text \<open>
  \<open>(a, b) => (a.kind !== b.kind ? a.kind.localeCompare(b.kind) : a.index - b.index)\<close>
\<close>

definition compare_files :: "BankFile \<Rightarrow> BankFile \<Rightarrow> int" where
  "compare_files a b =
     (if bank_kind a \<noteq> bank_kind b then localeCompare (bank_kind a) (bank_kind b)
      else int (bank_index a) - int (bank_index b))"

text \<open>\<open>Object.keys(source.list).map(splitName).filter((x) => x !== undefined).sort(...)\<close>\<close>

definition files :: "string list \<Rightarrow> BankFile list" where
  "files names = sort_by compare_files (List.map_filter splitName names)"

section \<open>Decoding rows\<close>

text \<open>
  Iterating a value, as \<open>for (const row of ...)\<close> and the array pattern
  \<open>const [a, b, c] = row\<close> do: an array gives its elements, a string its characters,
  anything else throws. A pattern position past the end reads \<open>undefined\<close>.
\<close>

fun iterate :: "json \<Rightarrow> error + json list" where
  "iterate (JArr xs) = Inr xs"
| "iterate (JStr s) = Inr (map (\<lambda>c. JStr [c]) s)"
| "iterate v = Inl TypeError"

definition col :: "json list \<Rightarrow> nat \<Rightarrow> json" where
  "col row i = (if i < length row then row ! i else JUndefined)"

text \<open>\<open>csv(x as string)\<close>: only a string has a \<open>split\<close> method.\<close>

fun csv_of :: "json \<Rightarrow> error + string list" where
  "csv_of (JStr s) = Inr (csv s)"
| "csv_of v = Inl TypeError"

definition push_term :: "RawDictionary \<Rightarrow> json \<Rightarrow> error + RawDictionary" where
  "push_term dict row =
     bind_err (iterate row) (\<lambda>cs.
     bind_err (csv_of (col cs 2)) (\<lambda>definition_tags.
     bind_err (csv_of (col cs 3)) (\<lambda>rules.
     bind_err (csv_of (col cs 7)) (\<lambda>term_tags.
       Inr (dict\<lparr>r_terms := r_terms dict @
         [\<lparr>r_expression = col cs 0, r_reading = col cs 1,
           r_definition_tags = definition_tags, r_rules = rules,
           r_score = col cs 4, r_glossary = col cs 5, r_sequence = col cs 6,
           r_term_tags = term_tags\<rparr>]\<rparr>)))))"

definition push_kanji :: "RawDictionary \<Rightarrow> json \<Rightarrow> error + RawDictionary" where
  "push_kanji dict row =
     bind_err (iterate row) (\<lambda>cs.
     bind_err (csv_of (col cs 1)) (\<lambda>onyomi.
     bind_err (csv_of (col cs 2)) (\<lambda>kunyomi.
     bind_err (csv_of (col cs 3)) (\<lambda>tags.
       Inr (dict\<lparr>r_kanji := r_kanji dict @
         [\<lparr>r_character = col cs 0, r_onyomi = onyomi, r_kunyomi = kunyomi,
           r_kanji_tags = tags, r_meanings = col cs 4, r_stats = col cs 5\<rparr>]\<rparr>)))))"

definition push_tag :: "RawDictionary \<Rightarrow> json \<Rightarrow> error + RawDictionary" where
  "push_tag dict row =
     bind_err (iterate row) (\<lambda>cs.
       Inr (dict\<lparr>r_tags := r_tags dict @
         [\<lparr>r_name = col cs 0, r_category = col cs 1, r_order = col cs 2,
           r_description = col cs 3, r_tag_score = col cs 4\<rparr>]\<rparr>))"

definition push_meta :: "string \<Rightarrow> RawDictionary \<Rightarrow> json \<Rightarrow> error + RawDictionary" where
  "push_meta k dict row =
     bind_err (iterate row) (\<lambda>cs.
       let m = \<lparr>r_meta_expression = col cs 0, r_mode = col cs 1, r_data = col cs 2\<rparr>
       in Inr (if k = ''kanji_meta'' then dict\<lparr>r_kanji_meta := r_kanji_meta dict @ [m]\<rparr>
               else dict\<lparr>r_terms_meta := r_terms_meta dict @ [m]\<rparr>))"

text \<open>\<open>read\<close> and the \<open>switch (it.kind)\<close> of the loop over the bank files.\<close>

definition read_rows :: "Source \<Rightarrow> BankFile \<Rightarrow> error + json list" where
  "read_rows source it =
     (case src_file source (bank_file it) of
        None \<Rightarrow> Inl ReadError
      | Some content \<Rightarrow> iterate content)"

definition import_file :: "Source \<Rightarrow> RawDictionary \<Rightarrow> BankFile \<Rightarrow> error + RawDictionary" where
  "import_file source dict it =
     (if bank_kind it = ''term'' then bind_err (read_rows source it) (fold_err push_term dict)
      else if bank_kind it = ''kanji'' then bind_err (read_rows source it) (fold_err push_kanji dict)
      else if bank_kind it = ''tag'' then bind_err (read_rows source it) (fold_err push_tag dict)
      else if bank_kind it = ''kanji_meta'' \<or> bank_kind it = ''term_meta''
        then bind_err (read_rows source it) (fold_err (push_meta (bank_kind it)) dict)
      else Inr dict)"

section \<open>Sorting the imported tags\<close>

text \<open>
  \<open>a.order !== b.order\<close> on run-time values: two arrays or objects of different rows
  are different objects, whatever they hold.
\<close>

fun is_object :: "json \<Rightarrow> bool" where
  "is_object (JArr xs) = True"
| "is_object (JObj kvs) = True"
| "is_object v = False"

definition strict_neq :: "json \<Rightarrow> json \<Rightarrow> bool" where
  "strict_neq a b = (is_object a \<or> is_object b \<or> a \<noteq> b)"

text \<open>
  The number an operand of \<open>-\<close> stands for, \<open>None\<close> for \<open>NaN\<close>. The numeric reading
  of strings and arrays needs the grammar of numeric literals and is left out: they
  read as \<open>NaN\<close> here. On numbers the difference is exact.
\<close>

fun to_number :: "json \<Rightarrow> int option" where
  "to_number (JNum n) = Some n"
| "to_number JNull = Some 0"
| "to_number (JBool b) = Some (if b then 1 else 0)"
| "to_number v = None"

text \<open>
  \<open>(a, b) => (a.order !== b.order ? a.order - b.order : a.name.localeCompare(b.name))\<close>;
  a \<open>NaN\<close> from the comparator counts as 0 in \<open>sort\<close>.
\<close>

definition compare_tags :: "RawTag \<Rightarrow> RawTag \<Rightarrow> error + int" where
  "compare_tags a b =
     (if strict_neq (r_order a) (r_order b) then
        (case (to_number (r_order a), to_number (r_order b)) of
           (Some x, Some y) \<Rightarrow> Inr (x - y)
         | _ \<Rightarrow> Inr 0)
      else (case r_name a of
              JStr s \<Rightarrow> Inr (localeCompare s (to_str (r_name b)))
            | _ \<Rightarrow> Inl TypeError))"

section \<open>importSource\<close>

definition INDEX_NAME :: string where
  "INDEX_NAME = ''index.json''"

definition FORMAT :: int where
  "FORMAT = 3"

text \<open>\<open>err(message)\<close>: \<open>new Error(`importing ${source.name}: ${message}`)\<close>\<close>

definition err :: "Source \<Rightarrow> string \<Rightarrow> error" where
  "err source message = Error (''importing '' @ src_name source @ '': '' @ message)"

text \<open>\<open>source.list[INDEX_NAME]\<close>: the marker, \<open>undefined\<close> when the key is not there.\<close>

definition list_entry :: "Source \<Rightarrow> string \<Rightarrow> json" where
  "list_entry source k = (case map_of (src_list source) k of None \<Rightarrow> JUndefined | Some v \<Rightarrow> v)"

text \<open>
  \<open>index.format\<close>: reading the property throws on \<open>null\<close> and \<open>undefined\<close>; an
  object gives its own property or \<open>undefined\<close>; numbers, strings, booleans and arrays
  have no such property.
\<close>

fun index_format :: "json \<Rightarrow> error + json" where
  "index_format JUndefined = Inl TypeError"
| "index_format JNull = Inl TypeError"
| "index_format (JObj kvs) = Inr (case map_of kvs ''format'' of None \<Rightarrow> JUndefined | Some v \<Rightarrow> v)"
| "index_format v = Inr JUndefined"

definition importSource :: "Source \<Rightarrow> error + RawDictionary" where
  "importSource source =
     (if \<not> truthy (list_entry source INDEX_NAME) then
        Inl (err source ''invalid file (missing index.json)'')
      else
        (case src_file source INDEX_NAME of
           None \<Rightarrow> Inl ReadError
         | Some index \<Rightarrow>
             bind_err (index_format index) (\<lambda>fmt.
               if fmt \<noteq> JNum FORMAT then
                 Inl (err source (''invalid format number (expected '' @ show_int FORMAT
                                   @ '', got '' @ to_str fmt @ '')''))
               else
                 bind_err
                   (fold_err (import_file source)
                      \<lparr>r_index = index, r_terms = [], r_kanji = [], r_tags = [],
                        r_terms_meta = [], r_kanji_meta = []\<rparr>
                      (files (map fst (src_list source))))
                   (\<lambda>dict.
                      bind_err (sort_by_err compare_tags (r_tags dict))
                        (\<lambda>sorted. Inr (dict\<lparr>r_tags := sorted\<rparr>))))))"

section \<open>The pattern of bank file names and the arity of rows, as the specification words them\<close>


text \<open>
  The column count of each kind of row, and a source whose rows are cut or filled with
  \<open>undefined\<close> to that count: the archive that padding and truncating would give.
\<close>

definition arity :: "string \<Rightarrow> nat" where
  "arity k = (if k = ''term'' then 8 else if k = ''kanji'' then 6 else if k = ''tag'' then 5 else 3)"

definition pad :: "nat \<Rightarrow> json list \<Rightarrow> json list" where
  "pad n cs = take n (cs @ replicate n JUndefined)"

fun pad_row :: "nat \<Rightarrow> json \<Rightarrow> json" where
  "pad_row n (JArr cs) = JArr (pad n cs)"
| "pad_row n v = v"

fun pad_content :: "nat \<Rightarrow> json \<Rightarrow> json" where
  "pad_content n (JArr rows) = JArr (map (pad_row n) rows)"
| "pad_content n v = v"

definition pad_source :: "Source \<Rightarrow> Source" where
  "pad_source source =
     source\<lparr>src_file := (\<lambda>name.
       case splitName name of
         None \<Rightarrow> src_file source name
       | Some f \<Rightarrow> map_option (pad_content (arity (bank_kind f))) (src_file source name))\<rparr>"

section \<open>The declared types of a dictionary\<close>

text \<open>
  \<open>mergeTags\<close> takes dictionaries at their declared types: strings are strings and
  numbers are integers. The \<open>stats\<close> object of a kanji is the association list of its
  keys, each once, and their values in the order \<open>Object.keys\<close> gives them.
\<close>

record Index =
  title :: string
  format :: int
  revision :: string
  sequenced :: bool

record Term =
  expression :: string
  reading :: string
  definition_tags :: "string list"
  rules :: "string list"
  term_score :: int
  glossary :: "string list"
  sequence :: int
  term_tags :: "string list"

record Kanji =
  character :: string
  onyomi :: "string list"
  kunyomi :: "string list"
  kanji_tags :: "string list"
  meanings :: "string list"
  stats :: "(string \<times> string) list"

record Tag =
  name :: string
  category :: string
  order :: int
  description :: string
  score :: int

record Meta =
  meta_expression :: string
  mode :: string
  data :: int

record Dictionary =
  index :: Index
  terms :: "Term list"
  kanji :: "Kanji list"
  tags :: "Tag list"
  terms_meta :: "Meta list"
  kanji_meta :: "Meta list"

section \<open>mergeTags\<close>

text \<open>
  The state of a run: \<open>tags\<close> (the namespace, a \<open>Map\<close> from id to tag) and
  \<open>tagUsage\<close>, shared by all dictionaries, and \<open>mapped\<close>, the name-to-id mapping of
  the dictionary being processed. A \<open>Map\<close> is an association list in insertion order:
  \<open>get\<close> is \<open>map_of\<close> and \<open>set\<close> is \<open>AList.update\<close>.
\<close>

record MergeState =
  st_tags :: "(string \<times> Tag) list"
  st_tagUsage :: "(string \<times> nat) list"
  st_mapped :: "(string \<times> string) list"

text \<open>The optional argument \<open>{ deleteUnused, deleteEmpty }\<close>; a missing flag is false.\<close>

record Args =
  deleteUnused :: bool
  deleteEmpty :: bool

text \<open>\<open>tagUsage.set(tagName, (tagUsage.get(tagName) || 0) + 1)\<close>\<close>

definition useTag :: "string \<Rightarrow> (string \<times> nat) list \<Rightarrow> (string \<times> nat) list" where
  "useTag tagName usage =
     AList.update tagName ((case map_of usage tagName of None \<Rightarrow> 0 | Some n \<Rightarrow> n) + 1) usage"

text \<open>\<open>used && useTag(id)\<close>\<close>

definition use_if :: "bool \<Rightarrow> string \<Rightarrow> MergeState \<Rightarrow> MergeState" where
  "use_if used ident st = (if used then st\<lparr>st_tagUsage := useTag ident (st_tagUsage st)\<rparr> else st)"

text \<open>\<open>new Map(dict.tags.map((x) => [x.name, x]))\<close>: a later tag of the same name wins.\<close>

definition byName_of :: "Tag list \<Rightarrow> (string \<times> Tag) list" where
  "byName_of ts = foldl (\<lambda>m x. AList.update (name x) x m) [] ts"

text \<open>
  \<open>byName.get(tagName) || { name: tagName, description: '', category: '', order: 0, score: 0 }\<close>
\<close>

definition candidate :: "(string \<times> Tag) list \<Rightarrow> string \<Rightarrow> Tag" where
  "candidate byName tagName =
     (case map_of byName tagName of
        Some t \<Rightarrow> t
      | None \<Rightarrow> \<lparr>name = tagName, category = [], order = 0, description = [], score = 0\<rparr>)"

text \<open>
  The id tried at a value of the counter: the name itself at 1, then
  \<open>`${tagName}-${counter}`\<close>.
\<close>

definition tag_id :: "string \<Rightarrow> nat \<Rightarrow> string" where
  "tag_id tagName counter = (if counter = 1 then tagName else tagName @ ''-'' @ show_nat counter)"

definition canMerge :: "Tag \<Rightarrow> Tag \<Rightarrow> bool" where
  "canMerge tag current \<longleftrightarrow>
     (category tag = category current \<or> category tag = [] \<or> category current = [])
     \<and> (description tag = description current \<or> description tag = [] \<or> description current = [])"

text \<open>The four \<open>current.field ||= tag.field\<close> assignments.\<close>

definition fill :: "Tag \<Rightarrow> Tag \<Rightarrow> Tag" where
  "fill current tag =
     current\<lparr>category := (if category current \<noteq> [] then category current else category tag),
             description := (if description current \<noteq> [] then description current else description tag),
             order := (if order current \<noteq> 0 then order current else order tag),
             score := (if score current \<noteq> 0 then score current else score tag)\<rparr>"

text \<open>
  The \<open>for (;;)\<close> loop of \<open>mapTag\<close>: the first id, from the counter on, that is free or
  holds a tag the candidate can merge into. It returns the id and the namespace with the
  candidate stored (a copy, \<open>{ ...tag }\<close>) or merged into the occupant.
\<close>

function probe :: "(string \<times> Tag) list \<Rightarrow> Tag \<Rightarrow> string \<Rightarrow> nat \<Rightarrow> string \<times> (string \<times> Tag) list" where
  "probe ns tag tagName counter =
     (case map_of ns (tag_id tagName counter) of
        None \<Rightarrow> (tag_id tagName counter, AList.update (tag_id tagName counter) tag ns)
      | Some current \<Rightarrow>
          if canMerge tag current
          then (tag_id tagName counter, AList.update (tag_id tagName counter) (fill current tag) ns)
          else probe ns tag tagName (Suc counter))"
  by pat_completeness auto

text \<open>
  The loop ends: the ids of one name are different for different counters, and the
  namespace is finite, so the ids in use from the counter on get fewer at every step.
\<close>

lemma digit_val_digit_char: "d < 10 \<Longrightarrow> digit_val (digit_char d) = d"
  by (simp add: digit_val_def digit_char_def)

lemma parseInt_snoc: "parseInt (ds @ [c]) = 10 * parseInt ds + digit_val c"
  by (simp add: parseInt_def)

lemma parseInt_show_nat: "parseInt (show_nat n) = n"
proof (induction n rule: show_nat.induct)
  case (1 n)
  show ?case
  proof (cases "n < 10")
    case True
    then show ?thesis
      by (simp add: show_nat.simps [of n] parseInt_def digit_val_digit_char)
  next
    case False
    then have "parseInt (show_nat n) = 10 * parseInt (show_nat (n div 10)) + digit_val (digit_char (n mod 10))"
      by (simp add: show_nat.simps [of n] parseInt_snoc)
    also have "\<dots> = 10 * (n div 10) + n mod 10"
      using 1 False by (simp add: digit_val_digit_char)
    finally show ?thesis by simp
  qed
qed

lemma show_nat_inject: "show_nat a = show_nat b \<Longrightarrow> a = b"
  by (metis parseInt_show_nat)

lemma tag_id_inject: "tag_id tagName a = tag_id tagName b \<Longrightarrow> a = b"
  by (auto simp: tag_id_def dest: show_nat_inject split: if_splits)

lemma finite_tag_ids: "finite {k. P k \<and> tag_id tagName k \<in> fst ` set ns}"
proof -
  have "inj (tag_id tagName)"
    by (rule injI) (rule tag_id_inject)
  then have "finite (tag_id tagName -` (fst ` set ns))"
    by (intro finite_vimageI) simp_all
  then show ?thesis
    by (rule rev_finite_subset) auto
qed

termination probe
proof (relation "measure (\<lambda>(ns, tag, tagName, counter).
    card {k. counter \<le> k \<and> tag_id tagName k \<in> fst ` set ns})")
  show "wf (measure (\<lambda>(ns, tag, tagName, counter).
    card {k. counter \<le> k \<and> tag_id tagName k \<in> fst ` set ns}))"
    by simp
next
  fix ns :: "(string \<times> Tag) list" and tag :: Tag and tagName :: string and counter :: nat
    and current :: Tag
  assume occupied: "map_of ns (tag_id tagName counter) = Some current"
  let ?from = "\<lambda>c. {k. c \<le> k \<and> tag_id tagName k \<in> fst ` set ns}"
  have "tag_id tagName counter \<in> fst ` set ns"
    using occupied by (metis map_of_eq_None_iff option.distinct(1))
  then have "counter \<in> ?from counter" and "counter \<notin> ?from (Suc counter)"
    by simp_all
  moreover have "?from (Suc counter) \<subseteq> ?from counter"
    by auto
  ultimately have "?from (Suc counter) \<subset> ?from counter"
    by blast
  then have "card (?from (Suc counter)) < card (?from counter)"
    by (intro psubset_card_mono finite_tag_ids)
  then show "((ns, tag, tagName, Suc counter), (ns, tag, tagName, counter))
      \<in> measure (\<lambda>(ns, tag, tagName, counter).
          card {k. counter \<le> k \<and> tag_id tagName k \<in> fst ` set ns})"
    by simp
qed

declare probe.simps [simp del]

text \<open>
  \<open>mapTag(tagName, used)\<close>: the cached id when \<open>mapped\<close> has a truthy one for the name
  (an empty string is falsy), else the id that \<open>probe\<close> finds for the candidate, with the
  local mapping saved. Either way the id is counted when \<open>used\<close>.
\<close>

definition mapTag :: "(string \<times> Tag) list \<Rightarrow> string \<Rightarrow> bool \<Rightarrow> MergeState \<Rightarrow> string \<times> MergeState" where
  "mapTag byName tagName used st =
     (case map_of (st_mapped st) tagName of
        Some mappedId \<Rightarrow>
          if mappedId \<noteq> [] then (mappedId, use_if used mappedId st)
          else (case probe (st_tags st) (candidate byName tagName) tagName 1 of
                  (ident, ns) \<Rightarrow>
                    (ident, use_if used ident
                       (st\<lparr>st_tags := ns, st_mapped := AList.update tagName ident (st_mapped st)\<rparr>)))
      | None \<Rightarrow>
          (case probe (st_tags st) (candidate byName tagName) tagName 1 of
             (ident, ns) \<Rightarrow>
               (ident, use_if used ident
                  (st\<lparr>st_tags := ns, st_mapped := AList.update tagName ident (st_mapped st)\<rparr>))))"

text \<open>\<open>xs.map(f)\<close> for an \<open>f\<close> that changes the state, left to right.\<close>

fun map_state :: "('a \<Rightarrow> 's \<Rightarrow> 'b \<times> 's) \<Rightarrow> 'a list \<Rightarrow> 's \<Rightarrow> 'b list \<times> 's" where
  "map_state f [] st = ([], st)"
| "map_state f (x # xs) st =
     (case f x st of
        (y, st') \<Rightarrow> (case map_state f xs st' of (ys, st'') \<Rightarrow> (y # ys, st'')))"

text \<open>\<open>names.map((x) => mapTag(x, true))\<close>\<close>

definition mapTags :: "(string \<times> Tag) list \<Rightarrow> string list \<Rightarrow> MergeState \<Rightarrow> string list \<times> MergeState" where
  "mapTags byName names st = map_state (\<lambda>x. mapTag byName x True) names st"

text \<open>The body of the loop over \<open>dict.terms\<close>: term tags, definition tags, rules, in that order.\<close>

definition mapTerm :: "(string \<times> Tag) list \<Rightarrow> Term \<Rightarrow> MergeState \<Rightarrow> Term \<times> MergeState" where
  "mapTerm byName it st =
     (case mapTags byName (term_tags it) st of (tt, st1) \<Rightarrow>
      case mapTags byName (definition_tags it) st1 of (dt, st2) \<Rightarrow>
      case mapTags byName (rules it) st2 of (rs, st3) \<Rightarrow>
        (it\<lparr>term_tags := tt, definition_tags := dt, rules := rs\<rparr>, st3))"

text \<open>
  \<open>for (const key of Object.keys(it.stats)) mappedStats[mapTag(key, true)] = it.stats[key]\<close>,
  over the entries of \<open>stats\<close> that are left, with \<open>mappedStats\<close> so far.
\<close>

fun mapStats :: "(string \<times> Tag) list \<Rightarrow> (string \<times> string) list \<Rightarrow> (string \<times> string) list
    \<Rightarrow> MergeState \<Rightarrow> (string \<times> string) list \<times> MergeState" where
  "mapStats byName [] mappedStats st = (mappedStats, st)"
| "mapStats byName ((key, v) # kvs) mappedStats st =
     (case mapTag byName key True st of
        (ident, st') \<Rightarrow> mapStats byName kvs (AList.update ident v mappedStats) st')"

text \<open>The body of the loop over \<open>dict.kanji\<close>.\<close>

definition mapKanji :: "(string \<times> Tag) list \<Rightarrow> Kanji \<Rightarrow> MergeState \<Rightarrow> Kanji \<times> MergeState" where
  "mapKanji byName it st =
     (case mapTags byName (kanji_tags it) st of (ts, st1) \<Rightarrow>
      case mapStats byName (stats it) [] st1 of (ms, st2) \<Rightarrow>
        (it\<lparr>kanji_tags := ts, stats := ms\<rparr>, st2))"

text \<open>\<open>for (const it of dict.tags) mapTag(it.name, false)\<close>\<close>

definition seedTags :: "(string \<times> Tag) list \<Rightarrow> Tag list \<Rightarrow> MergeState \<Rightarrow> MergeState" where
  "seedTags byName ts st = fold (\<lambda>it s. snd (mapTag byName (name it) False s)) ts st"

text \<open>
  The body of the loop over the dictionaries: a dictionary without tags is skipped
  (\<open>continue\<close>); for another, \<open>mapped\<close> starts empty, the defined tags are mapped, then
  the terms and the kanji are rewritten.
\<close>

definition mergeDict :: "Dictionary \<Rightarrow> MergeState \<Rightarrow> Dictionary \<times> MergeState" where
  "mergeDict dict st =
     (if tags dict = [] then (dict, st)
      else
        (case map_state (mapTerm (byName_of (tags dict))) (terms dict)
                (seedTags (byName_of (tags dict)) (tags dict) (st\<lparr>st_mapped := []\<rparr>)) of
           (ts, st2) \<Rightarrow>
             (case map_state (mapKanji (byName_of (tags dict))) (kanji dict) st2 of
                (ks, st3) \<Rightarrow> (dict\<lparr>terms := ts, kanji := ks\<rparr>, st3))))"

text \<open>The dictionaries after the loop, and the state it leaves.\<close>

definition reconcile :: "Dictionary list \<Rightarrow> Dictionary list \<times> MergeState" where
  "reconcile dictionaries =
     map_state mergeDict dictionaries \<lparr>st_tags = [], st_tagUsage = [], st_mapped = []\<rparr>"

text \<open>
  The last loop: \<open>empty\<close> is \<open>args.deleteEmpty && !(category || description || order || score)\<close>
  and \<open>unused\<close> is \<open>args.deleteUnused && !tagUsage.get(key)\<close>; an entry that is either
  is deleted.
\<close>

definition isEmptyTag :: "Tag \<Rightarrow> bool" where
  "isEmptyTag val \<longleftrightarrow> \<not> (category val \<noteq> [] \<or> description val \<noteq> [] \<or> order val \<noteq> 0 \<or> score val \<noteq> 0)"

definition isUsed :: "(string \<times> nat) list \<Rightarrow> string \<Rightarrow> bool" where
  "isUsed usage key = (case map_of usage key of None \<Rightarrow> False | Some n \<Rightarrow> n \<noteq> 0)"

definition cleanup :: "Args \<Rightarrow> (string \<times> nat) list \<Rightarrow> (string \<times> Tag) list \<Rightarrow> (string \<times> Tag) list" where
  "cleanup args usage ns =
     filter (\<lambda>(key, val). \<not> ((deleteEmpty args \<and> isEmptyTag val) \<or> (deleteUnused args \<and> \<not> isUsed usage key))) ns"

text \<open>
  \<open>mergeTags(dictionaries, args)\<close>: the namespace it returns, and the dictionaries as it
  leaves them (it rewrites them in place).
\<close>

definition mergeTags :: "Dictionary list \<Rightarrow> Args \<Rightarrow> (string \<times> Tag) list \<times> Dictionary list" where
  "mergeTags dictionaries args =
     (case reconcile dictionaries of
        (ds, st) \<Rightarrow> (cleanup args (st_tagUsage st) (st_tags st), ds))"

section \<open>Relations used to state the properties of mergeTags\<close>

text \<open>
  \<open>tag_le e e'\<close>: \<open>e'\<close> is \<open>e\<close> with gaps filled, the name and every non-empty field
  kept. \<open>absorbs e t\<close>: the entry \<open>e\<close> carries what the tag \<open>t\<close> brings, its category and
  description where \<open>t\<close> has one, and a non-zero order and score where \<open>t\<close> has one.
\<close>

definition tag_le :: "Tag \<Rightarrow> Tag \<Rightarrow> bool" where
  "tag_le e e' \<longleftrightarrow>
     name e' = name e
     \<and> (category e = [] \<or> category e' = category e)
     \<and> (description e = [] \<or> description e' = description e)
     \<and> (order e = 0 \<or> order e' = order e)
     \<and> (score e = 0 \<or> score e' = score e)"

definition absorbs :: "Tag \<Rightarrow> Tag \<Rightarrow> bool" where
  "absorbs e t \<longleftrightarrow>
     (category t = [] \<or> category e = category t)
     \<and> (description t = [] \<or> description e = description t)
     \<and> (order t = 0 \<or> order e \<noteq> 0)
     \<and> (score t = 0 \<or> score e \<noteq> 0)"




text \<open>\<open>is_id_of n i\<close>: \<open>i\<close> is an id of the name \<open>n\<close>, that is \<open>n\<close>, \<open>n-2\<close>, \<open>n-3\<close>, ...\<close>

definition is_id_of :: "string \<Rightarrow> string \<Rightarrow> bool" where
  "is_id_of n i \<longleftrightarrow> (\<exists>k. 1 \<le> k \<and> i = tag_id n k)"

text \<open>A dictionary that defines tags and has no entries, and the default arguments.\<close>

definition tags_only :: "Index \<Rightarrow> Tag list \<Rightarrow> Dictionary" where
  "tags_only ix ts = \<lparr>index = ix, terms = [], kanji = [], tags = ts, terms_meta = [], kanji_meta = []\<rparr>"

definition default_args :: Args where
  "default_args = \<lparr>deleteUnused = False, deleteEmpty = False\<rparr>"

text \<open>
  A dictionary after the rewriting, against the dictionary before: nothing but the tag
  references has changed, and every reference stands in \<open>R\<close> to the name it replaces,
  position by position in the lists; the keys of \<open>stats\<close> are related as sets, since two
  keys can resolve to one id.
\<close>

definition term_rel :: "(string \<Rightarrow> string \<Rightarrow> bool) \<Rightarrow> Term \<Rightarrow> Term \<Rightarrow> bool" where
  "term_rel R t t' \<longleftrightarrow>
     t' = t\<lparr>term_tags := term_tags t', definition_tags := definition_tags t', rules := rules t'\<rparr>
     \<and> list_all2 R (term_tags t) (term_tags t')
     \<and> list_all2 R (definition_tags t) (definition_tags t')
     \<and> list_all2 R (rules t) (rules t')"

definition stats_rel :: "(string \<Rightarrow> string \<Rightarrow> bool) \<Rightarrow> (string \<times> string) list \<Rightarrow> (string \<times> string) list \<Rightarrow> bool" where
  "stats_rel R kvs kvs' \<longleftrightarrow>
     (\<forall>i \<in> fst ` set kvs'. \<exists>n \<in> fst ` set kvs. R n i)
     \<and> (\<forall>n \<in> fst ` set kvs. \<exists>i \<in> fst ` set kvs'. R n i)"

definition kanji_rel :: "(string \<Rightarrow> string \<Rightarrow> bool) \<Rightarrow> Kanji \<Rightarrow> Kanji \<Rightarrow> bool" where
  "kanji_rel R k k' \<longleftrightarrow>
     k' = k\<lparr>kanji_tags := kanji_tags k', stats := stats k'\<rparr>
     \<and> list_all2 R (kanji_tags k) (kanji_tags k')
     \<and> stats_rel R (stats k) (stats k')"

definition dict_rel :: "(string \<Rightarrow> string \<Rightarrow> bool) \<Rightarrow> Dictionary \<Rightarrow> Dictionary \<Rightarrow> bool" where
  "dict_rel R d d' \<longleftrightarrow>
     d' = d\<lparr>terms := terms d', kanji := kanji d'\<rparr>
     \<and> list_all2 (term_rel R) (terms d) (terms d')
     \<and> list_all2 (kanji_rel R) (kanji d) (kanji d')"

text \<open>
  The order in which a run extends its state: every entry of the namespace stays under
  its id with its gaps filled at most, and every id that was counted as used stays so.
\<close>

definition ns_le :: "(string \<times> Tag) list \<Rightarrow> (string \<times> Tag) list \<Rightarrow> bool" where
  "ns_le ns ns' \<longleftrightarrow> (\<forall>i e. map_of ns i = Some e \<longrightarrow> (\<exists>e'. map_of ns' i = Some e' \<and> tag_le e e'))"

definition st_le :: "MergeState \<Rightarrow> MergeState \<Rightarrow> bool" where
  "st_le st st' \<longleftrightarrow>
     ns_le (st_tags st) (st_tags st')
     \<and> (\<forall>k. isUsed (st_tagUsage st) k \<longrightarrow> isUsed (st_tagUsage st') k)"

text \<open>
  The invariant of the namespace: the ids are distinct and each is an id of the name of
  its tag. \<open>resolved\<close>: the id is one of the name and holds an entry that absorbs the
  candidate of the name; \<open>used_ref\<close>: and it is counted as used.
\<close>

definition ns_inv :: "(string \<times> Tag) list \<Rightarrow> bool" where
  "ns_inv ns \<longleftrightarrow>
     distinct (map fst ns) \<and> (\<forall>i e. map_of ns i = Some e \<longrightarrow> is_id_of (name e) i)"

definition resolved :: "(string \<times> Tag) list \<Rightarrow> MergeState \<Rightarrow> string \<Rightarrow> string \<Rightarrow> bool" where
  "resolved byName st n i \<longleftrightarrow>
     is_id_of n i \<and> (\<exists>e. map_of (st_tags st) i = Some e \<and> absorbs e (candidate byName n))"

definition used_ref :: "(string \<times> Tag) list \<Rightarrow> MergeState \<Rightarrow> string \<Rightarrow> string \<Rightarrow> bool" where
  "used_ref byName st n i \<longleftrightarrow> resolved byName st n i \<and> isUsed (st_tagUsage st) i"

definition st_inv :: "(string \<times> Tag) list \<Rightarrow> MergeState \<Rightarrow> bool" where
  "st_inv byName st \<longleftrightarrow>
     ns_inv (st_tags st)
     \<and> (\<forall>n t. map_of byName n = Some t \<longrightarrow> name t = n)
     \<and> (\<forall>n i. map_of (st_mapped st) n = Some i \<longrightarrow> i \<noteq> [] \<longrightarrow> resolved byName st n i)"

text \<open>What the loop has done to one dictionary, in a state at or after its turn.\<close>

definition dict_done :: "MergeState \<Rightarrow> Dictionary \<Rightarrow> Dictionary \<Rightarrow> bool" where
  "dict_done st d d' \<longleftrightarrow>
     (if tags d = [] then d' = d
      else dict_rel (used_ref (byName_of (tags d)) st) d d'
           \<and> (\<forall>t \<in> set (tags d). \<exists>i. resolved (byName_of (tags d)) st (name t) i))"

section \<open>Properties of the tag-list splitting\<close>

lemma split_space_not_Nil: "split_space s \<noteq> []"
  by (induction s) (auto split: list.splits)

lemma split_space_append:
  "split_space (t @ CHR '' '' # s) = split_space t @ split_space s"
proof (induction t)
  case Nil
  show ?case by simp
next
  case (Cons c t)
  obtain u us where u: "split_space t = u # us"
    using split_space_not_Nil [of t] by (cases "split_space t") auto
  with Cons show ?case by simp
qed

lemma split_space_no_space:
  "CHR '' '' \<notin> set t \<Longrightarrow> split_space t = [t]"
  by (induction t) auto

lemma split_space_tokens:
  "t \<in> set (split_space s) \<Longrightarrow> CHR '' '' \<notin> set t"
proof (induction s arbitrary: t)
  case Nil
  then show ?case by simp
next
  case (Cons c s)
  obtain u us where u: "split_space s = u # us"
    using split_space_not_Nil [of s] by (cases "split_space s") auto
  show ?case
  proof (cases "c = CHR '' ''")
    case True
    with Cons show ?thesis by auto
  next
    case False
    with Cons.prems u have "t = c # u \<or> t \<in> set us" by simp
    then show ?thesis
    proof
      assume "t = c # u"
      moreover have "CHR '' '' \<notin> set u" using Cons.IH [of u] u by simp
      ultimately show ?thesis using False by simp
    next
      assume "t \<in> set us"
      then show ?thesis using Cons.IH [of t] u by simp
    qed
  qed
qed

lemma csv_append: "csv (t @ CHR '' '' # s) = csv t @ csv s"
  by (simp add: csv_def split_space_append)

lemma csv_token:
  "t \<noteq> [] \<Longrightarrow> CHR '' '' \<notin> set t \<Longrightarrow> csv t = [t]"
  by (simp add: csv_def split_space_no_space)

lemma csv_join_tokens:
  "[] \<notin> set ts \<Longrightarrow> (\<And>t. t \<in> set ts \<Longrightarrow> CHR '' '' \<notin> set t) \<Longrightarrow> csv (join '' '' ts) = ts"
proof (induction "'' ''" ts rule: join.induct)
  case 1
  show ?case by (simp add: csv_def)
next
  case (2 x)
  then show ?case by (simp add: csv_token)
next
  case (3 x y ys)
  have "csv (join '' '' (y # ys)) = y # ys"
    using 3 by simp
  moreover have "csv x = [x]"
    using "3.prems" by (intro csv_token) auto
  ultimately show ?case
    by (simp add: csv_append)
qed

lemma csv_nonempty: "[] \<notin> set (csv s)"
  by (simp add: csv_def)

lemma csv_no_space: "t \<in> set (csv s) \<Longrightarrow> CHR '' '' \<notin> set t"
  using split_space_tokens [of t s] by (simp add: csv_def)

text \<open>
  Claim C9. The tag-list splitting yields only non-empty tokens, none of which holds a
  separator, and it is idempotent up to the normalisation of separators: joining the
  tokens of any string with single spaces and splitting again gives the same tokens.
  Leading, trailing and repeated separators leave no token behind.
\<close>

theorem csv_split_join_idempotent:
  "csv (join '' '' (csv s)) = csv s
   \<and> [] \<notin> set (csv s)
   \<and> list_all (\<lambda>t. CHR '' '' \<notin> set t) (csv s)
   \<and> csv (replicate i (CHR '' '') @ s @ replicate j (CHR '' '')) = csv s
   \<and> csv (a @ replicate (Suc k) (CHR '' '') @ b) = csv a @ csv b"
proof -
  have lead: "csv (replicate n (CHR '' '') @ u) = csv u" for n u
  proof (induction n)
    case 0
    show ?case by simp
  next
    case (Suc n)
    have "csv (CHR '' '' # replicate n (CHR '' '') @ u) = csv [] @ csv (replicate n (CHR '' '') @ u)"
      using csv_append [of "[]"] by simp
    with Suc show ?case by (simp add: csv_def)
  qed
  have trail: "csv (u @ replicate n (CHR '' '')) = csv u" for n u
  proof (induction n arbitrary: u)
    case 0
    show ?case by simp
  next
    case (Suc n)
    have "csv (u @ CHR '' '' # replicate n (CHR '' '')) = csv u @ csv (replicate n (CHR '' ''))"
      by (rule csv_append)
    moreover have "csv (replicate n (CHR '' '')) = csv []"
      using lead [of n "[]"] by simp
    ultimately show ?case by (simp add: csv_def)
  qed
  have 1: "csv (join '' '' (csv s)) = csv s"
    by (rule csv_join_tokens) (auto simp: csv_nonempty dest: csv_no_space)
  have 3: "list_all (\<lambda>t. CHR '' '' \<notin> set t) (csv s)"
    by (auto simp: list_all_iff dest: csv_no_space)
  have 4: "csv (replicate i (CHR '' '') @ s @ replicate j (CHR '' '')) = csv s"
    by (simp add: lead trail)
  have "csv (a @ CHR '' '' # replicate k (CHR '' '') @ b) = csv a @ csv (replicate k (CHR '' '') @ b)"
    by (rule csv_append)
  then have 5: "csv (a @ replicate (Suc k) (CHR '' '') @ b) = csv a @ csv b"
    by (simp add: lead)
  show ?thesis using 1 3 4 5 csv_nonempty by blast
qed

theorem csv_split_join_idempotent_witness:
  "csv (join '' '' (csv ''  v5  vt '')) = csv ''  v5  vt ''
   \<and> csv ''  v5  vt '' = [''v5'', ''vt'']
   \<and> join '' '' (csv ''  v5  vt '') = ''v5 vt''"
  using csv_split_join_idempotent [of "''  v5  vt ''" 0 0 "[]" 0 "[]"]
  by (simp add: csv_def)

section \<open>Properties of the index checks\<close>

lemma show_int_FORMAT: "show_int FORMAT = ''3''"
  by code_simp

lemma importSource_missing:
  "\<not> truthy (list_entry source INDEX_NAME) \<Longrightarrow>
   importSource source =
     Inl (Error (''importing '' @ src_name source @ '': invalid file (missing index.json)''))"
  by (simp add: importSource_def err_def)

lemma importSource_format:
  "truthy (list_entry source INDEX_NAME) \<Longrightarrow> src_file source INDEX_NAME = Some idx \<Longrightarrow>
   index_format idx = Inr fmt \<Longrightarrow> fmt \<noteq> JNum 3 \<Longrightarrow>
   importSource source =
     Inl (Error (''importing '' @ src_name source @
        '': invalid format number (expected 3, got '' @ to_str fmt @ '')''))"
  by (simp add: importSource_def err_def bind_err_def show_int_FORMAT) (simp add: FORMAT_def)

text \<open>
  Claim C5. An import fails with an error whose message names the archive when the
  listing has no \<open>index.json\<close>, and when the \<open>format\<close> of the parsed index is not the
  number 3; an index that declares format 2 fails so, and no dictionary is returned.
\<close>

theorem importSource_index_errors:
  "(map_of (src_list source) ''index.json'' = None \<longrightarrow>
      importSource source =
        Inl (Error (''importing '' @ src_name source @ '': invalid file (missing index.json)'')))
   \<and> (truthy (list_entry source ''index.json'') \<and> src_file source ''index.json'' = Some idx
        \<and> index_format idx = Inr fmt \<and> fmt \<noteq> JNum 3 \<longrightarrow>
      importSource source =
        Inl (Error (''importing '' @ src_name source @
           '': invalid format number (expected 3, got '' @ to_str fmt @ '')''))
      \<and> (\<forall>dict. importSource source \<noteq> Inr dict))
   \<and> (truthy (list_entry source ''index.json'')
        \<and> src_file source ''index.json'' = Some (JObj kvs) \<and> map_of kvs ''format'' = Some (JNum 2) \<longrightarrow>
      importSource source =
        Inl (Error (''importing '' @ src_name source @
           '': invalid format number (expected 3, got 2)''))
      \<and> (\<forall>dict. importSource source \<noteq> Inr dict))"
proof (intro conjI impI)
  assume "map_of (src_list source) ''index.json'' = None"
  then have "\<not> truthy (list_entry source INDEX_NAME)"
    by (simp add: list_entry_def INDEX_NAME_def)
  then show "importSource source =
      Inl (Error (''importing '' @ src_name source @ '': invalid file (missing index.json)''))"
    by (rule importSource_missing)
next
  assume a: "truthy (list_entry source ''index.json'') \<and> src_file source ''index.json'' = Some idx
        \<and> index_format idx = Inr fmt \<and> fmt \<noteq> JNum 3"
  then show r: "importSource source =
      Inl (Error (''importing '' @ src_name source @
         '': invalid format number (expected 3, got '' @ to_str fmt @ '')''))"
    using importSource_format [of source idx fmt] by (simp add: INDEX_NAME_def)
  show "\<forall>dict. importSource source \<noteq> Inr dict"
    unfolding r by simp
next
  assume a: "truthy (list_entry source ''index.json'')
        \<and> src_file source ''index.json'' = Some (JObj kvs) \<and> map_of kvs ''format'' = Some (JNum 2)"
  have two: "to_str (JNum 2) = ''2''"
    by code_simp
  from a have "index_format (JObj kvs) = Inr (JNum 2)"
    by simp
  with a show r: "importSource source =
      Inl (Error (''importing '' @ src_name source @
         '': invalid format number (expected 3, got 2)''))"
    using importSource_format [of source "JObj kvs" "JNum 2"] two by (simp add: INDEX_NAME_def)
  show "\<forall>dict. importSource source \<noteq> Inr dict"
    unfolding r by simp
qed

theorem importSource_index_errors_witness:
  "importSource \<lparr>src_name = ''jmdict.zip'', src_list = [(''term_bank_1.json'', JBool True)],
                 src_file = (\<lambda>n. None)\<rparr>
     = Inl (Error ''importing jmdict.zip: invalid file (missing index.json)'')
   \<and> importSource \<lparr>src_name = ''jmdict.zip'', src_list = [(''index.json'', JBool True)],
                   src_file = (\<lambda>n. Some (JObj [(''title'', JStr ''JMdict''), (''format'', JNum 2)]))\<rparr>
     = Inl (Error ''importing jmdict.zip: invalid format number (expected 3, got 2)'')
   \<and> importSource \<lparr>src_name = ''jmdict.zip'', src_list = [(''index.json'', JBool True)],
                   src_file = (\<lambda>n. Some (JObj [(''title'', JStr ''JMdict'')]))\<rparr>
     = Inl (Error ''importing jmdict.zip: invalid format number (expected 3, got undefined)'')"
  using
    importSource_index_errors [of "\<lparr>src_name = ''jmdict.zip'',
        src_list = [(''term_bank_1.json'', JBool True)], src_file = (\<lambda>n. None)\<rparr>"]
    importSource_index_errors [of "\<lparr>src_name = ''jmdict.zip'',
        src_list = [(''index.json'', JBool True)],
        src_file = (\<lambda>n. Some (JObj [(''title'', JStr ''JMdict''), (''format'', JNum 2)]))\<rparr>"
        _ _ "[(''title'', JStr ''JMdict''), (''format'', JNum 2)]"]
    importSource_index_errors [of "\<lparr>src_name = ''jmdict.zip'',
        src_list = [(''index.json'', JBool True)],
        src_file = (\<lambda>n. Some (JObj [(''title'', JStr ''JMdict'')]))\<rparr>"
        "JObj [(''title'', JStr ''JMdict'')]" JUndefined]
  by (simp add: list_entry_def)

lemma map_of_filter_key: "map_of (filter (\<lambda>kv. fst kv \<noteq> k) al) k = None"
  by (induction al) auto

text \<open>
  Claim C10. The index counts as present by the truthiness of its marker in the
  listing: when \<open>index.json\<close> is a key of the listing with a falsy marker (\<open>false\<close>,
  \<open>0\<close>, the empty string, \<open>null\<close> or \<open>undefined\<close>), the import fails with the
  missing-index error, which is the result for the listing without that key.
\<close>

theorem importSource_falsy_index_marker:
  "map_of (src_list source) ''index.json'' = Some v \<Longrightarrow> \<not> truthy v \<Longrightarrow>
     importSource source =
       Inl (Error (''importing '' @ src_name source @ '': invalid file (missing index.json)''))
     \<and> importSource source =
         importSource (source\<lparr>src_list := filter (\<lambda>kv. fst kv \<noteq> ''index.json'') (src_list source)\<rparr>)
     \<and> map_of (filter (\<lambda>kv. fst kv \<noteq> ''index.json'') (src_list source)) ''index.json'' = None
     \<and> \<not> truthy (JBool False) \<and> \<not> truthy (JNum 0) \<and> \<not> truthy (JStr '''')
     \<and> \<not> truthy JNull \<and> \<not> truthy JUndefined"
proof -
  assume v: "map_of (src_list source) ''index.json'' = Some v" "\<not> truthy v"
  let ?absent = "source\<lparr>src_list := filter (\<lambda>kv. fst kv \<noteq> ''index.json'') (src_list source)\<rparr>"
  have "\<not> truthy (list_entry source INDEX_NAME)"
    using v by (simp add: list_entry_def INDEX_NAME_def)
  then have 1: "importSource source =
      Inl (Error (''importing '' @ src_name source @ '': invalid file (missing index.json)''))"
    by (rule importSource_missing)
  have "\<not> truthy (list_entry ?absent INDEX_NAME)"
    by (simp add: list_entry_def INDEX_NAME_def map_of_filter_key)
  then have "importSource ?absent =
      Inl (Error (''importing '' @ src_name ?absent @ '': invalid file (missing index.json)''))"
    by (rule importSource_missing)
  with 1 have 2: "importSource source = importSource ?absent"
    by simp
  show ?thesis
    using 1 2 by (simp add: map_of_filter_key)
qed

theorem importSource_falsy_index_marker_witness:
  "importSource \<lparr>src_name = ''kanjidic.zip'',
                 src_list = [(''index.json'', JNum 0), (''kanji_bank_1.json'', JBool True)],
                 src_file = (\<lambda>n. Some (JObj [(''format'', JNum 3)]))\<rparr>
     = Inl (Error ''importing kanjidic.zip: invalid file (missing index.json)'')
   \<and> importSource \<lparr>src_name = ''kanjidic.zip'',
                 src_list = [(''kanji_bank_1.json'', JBool True)],
                 src_file = (\<lambda>n. Some (JObj [(''format'', JNum 3)]))\<rparr>
     = Inl (Error ''importing kanjidic.zip: invalid file (missing index.json)'')"
  using importSource_falsy_index_marker [of "\<lparr>src_name = ''kanjidic.zip'',
                 src_list = [(''index.json'', JNum 0), (''kanji_bank_1.json'', JBool True)],
                 src_file = (\<lambda>n. Some (JObj [(''format'', JNum 3)]))\<rparr>" "JNum 0"]
  by auto

section \<open>Properties of the bank file selection\<close>

lemma strip_prefix_Some: "strip_prefix p s = Some r \<longleftrightarrow> s = p @ r"
  by (induction p s rule: strip_prefix.induct) auto

lemma strip_suffix_Some: "strip_suffix p s = Some r \<longleftrightarrow> s = r @ p"
proof -
  have "strip_suffix p s = Some r \<longleftrightarrow> (\<exists>z. strip_prefix (rev p) (rev s) = Some z \<and> rev z = r)"
    by (auto simp: strip_suffix_def)
  also have "\<dots> \<longleftrightarrow> (\<exists>z. rev s = rev p @ z \<and> rev z = r)"
    by (simp add: strip_prefix_Some)
  also have "\<dots> \<longleftrightarrow> s = r @ p"
    by (metis rev_append rev_rev_ident)
  finally show ?thesis .
qed

lemma match_kind_Some:
  "match_kind k nm = Some ds \<longleftrightarrow>
     ds \<noteq> [] \<and> list_all is_digit ds \<and> nm = k @ ''_bank_'' @ ds @ ''.json''"
proof
  assume "match_kind k nm = Some ds"
  then show "ds \<noteq> [] \<and> list_all is_digit ds \<and> nm = k @ ''_bank_'' @ ds @ ''.json''"
    by (auto simp: match_kind_def strip_prefix_Some strip_suffix_Some
        split: option.splits if_splits)
next
  assume a: "ds \<noteq> [] \<and> list_all is_digit ds \<and> nm = k @ ''_bank_'' @ ds @ ''.json''"
  have "strip_prefix (k @ ''_bank_'') ((k @ ''_bank_'') @ ds @ ''.json'') = Some (ds @ ''.json'')"
    by (simp only: strip_prefix_Some)
  moreover have "strip_suffix ''.json'' (ds @ ''.json'') = Some ds"
    by (simp only: strip_suffix_Some)
  ultimately show "match_kind k nm = Some ds"
    using a by (simp add: match_kind_def)
qed

lemma first_match_Some:
  "first_match ks nm = Some (k, ds) \<Longrightarrow> k \<in> set ks \<and> match_kind k nm = Some ds"
  by (induction ks) (auto split: option.splits)



lemma splitName_Some:
  assumes "splitName nm = Some f"
  shows "bank_file f = nm" and "bank_kind f \<in> set kinds"
    and "\<exists>ds. ds \<noteq> [] \<and> list_all is_digit ds
           \<and> nm = bank_kind f @ ''_bank_'' @ ds @ ''.json'' \<and> bank_index f = parseInt ds"
proof -
  from assms obtain k ds where m: "first_match kinds nm = Some (k, ds)"
    and f: "f = \<lparr>bank_kind = k, bank_file = nm, bank_index = parseInt ds\<rparr>"
    by (auto simp: splitName_def split: option.splits)
  from f show "bank_file f = nm" by simp
  from m f show "bank_kind f \<in> set kinds"
    using first_match_Some by fastforce
  from first_match_Some [OF m] have "match_kind k nm = Some ds" by simp
  then have "ds \<noteq> [] \<and> list_all is_digit ds \<and> nm = k @ ''_bank_'' @ ds @ ''.json''"
    using match_kind_Some [of k nm ds] by blast
  with f show "\<exists>ds. ds \<noteq> [] \<and> list_all is_digit ds
           \<and> nm = bank_kind f @ ''_bank_'' @ ds @ ''.json'' \<and> bank_index f = parseInt ds"
    by auto
qed


lemma splitName_map_filter:
  "f \<in> set (List.map_filter splitName names) \<Longrightarrow> splitName (bank_file f) = Some f"
proof (induction names)
  case Nil
  then show ?case by simp
next
  case (Cons n names)
  show ?case
  proof (cases "splitName n")
    case None
    with Cons show ?thesis by simp
  next
    case (Some g)
    with Cons.prems have "f = g \<or> f \<in> set (List.map_filter splitName names)"
      by simp
    then show ?thesis
    proof
      assume "f = g"
      with Some splitName_Some(1) [OF Some] show ?thesis by simp
    next
      assume "f \<in> set (List.map_filter splitName names)"
      then show ?thesis by (rule Cons.IH)
    qed
  qed
qed

subsection \<open>The insertion sort\<close>

lemma mset_insert_by: "mset (insert_by c x xs) = add_mset x (mset xs)"
  by (induction xs) auto

lemma mset_sort_by: "mset (sort_by c xs) = mset xs"
  by (induction xs) (auto simp: sort_by_def mset_insert_by)




subsection \<open>The comparator of bank files\<close>








section \<open>Properties of the row decoding\<close>

lemma bind_err_simps [simp]:
  "bind_err (Inl e) f = Inl e"
  "bind_err (Inr x) f = f x"
  by (simp_all add: bind_err_def)

lemma col_pad: "i < n \<Longrightarrow> col (pad n cs) i = col cs i"
  by (auto simp: col_def pad_def nth_append)

lemma push_term_pad: "push_term dict (pad_row 8 row) = push_term dict row"
  by (cases row) (simp_all add: push_term_def col_pad)

lemma push_kanji_pad: "push_kanji dict (pad_row 6 row) = push_kanji dict row"
  by (cases row) (simp_all add: push_kanji_def col_pad)

lemma push_tag_pad: "push_tag dict (pad_row 5 row) = push_tag dict row"
  by (cases row) (simp_all add: push_tag_def col_pad)

lemma push_meta_pad: "push_meta k dict (pad_row 3 row) = push_meta k dict row"
  by (cases row) (simp_all add: push_meta_def col_pad)

lemma fold_err_map:
  "(\<And>s x. f s (g x) = f s x) \<Longrightarrow> fold_err f s (map g xs) = fold_err f s xs"
  by (induction xs arbitrary: s) simp_all

lemma iterate_pad_content:
  "bind_err (iterate (pad_content n c)) (fold_err f s)
     = bind_err (iterate c) (\<lambda>rows. fold_err f s (map (pad_row n) rows))"
proof (cases c)
  case (JStr t)
  have "pad_row n \<circ> (\<lambda>c. JStr [c]) = (\<lambda>c. JStr [c])"
    by (simp add: fun_eq_iff)
  with JStr show ?thesis by (simp add: bind_err_def)
qed (simp_all add: bind_err_def)

lemma import_file_pad:
  assumes "splitName (bank_file it) = Some it"
  shows "import_file (pad_source source) dict it = import_file source dict it"
proof -
  let ?n = "arity (bank_kind it)"
  have rows: "bind_err (read_rows (pad_source source) it) (fold_err f dict)
      = bind_err (read_rows source it) (\<lambda>rows. fold_err f dict (map (pad_row ?n) rows))" for f
  proof (cases "src_file source (bank_file it)")
    case None
    with assms show ?thesis
      by (simp add: read_rows_def pad_source_def bind_err_def)
  next
    case (Some c)
    with assms show ?thesis
      using iterate_pad_content [of ?n c f dict]
      by (simp add: read_rows_def pad_source_def)
  qed
  show ?thesis
    unfolding import_file_def rows
    by (auto simp: arity_def fold_err_map push_term_pad push_kanji_pad push_tag_pad push_meta_pad)
qed

lemma fold_err_cong_list:
  "(\<And>s x. x \<in> set xs \<Longrightarrow> f s x = g s x) \<Longrightarrow> fold_err f s xs = fold_err g s xs"
  by (induction xs arbitrary: s) simp_all

lemma splitName_index: "splitName INDEX_NAME = None"
  by code_simp

lemma files_splitName: "f \<in> set (files names) \<Longrightarrow> splitName (bank_file f) = Some f"
proof -
  assume "f \<in> set (files names)"
  moreover have "set (files names) = set (List.map_filter splitName names)"
    by (metis files_def mset_sort_by set_mset_mset)
  ultimately show ?thesis
    by (simp add: splitName_map_filter)
qed

lemma importSource_pad: "importSource (pad_source source) = importSource source"
proof -
  have l: "src_list (pad_source source) = src_list source"
    and n: "src_name (pad_source source) = src_name source"
    by (simp_all add: pad_source_def)
  have i: "src_file (pad_source source) INDEX_NAME = src_file source INDEX_NAME"
    by (simp add: pad_source_def splitName_index)
  have f: "fold_err (import_file (pad_source source)) d (files names)
      = fold_err (import_file source) d (files names)" for d names
    by (rule fold_err_cong_list) (simp add: import_file_pad files_splitName)
  show ?thesis
    unfolding importSource_def list_entry_def err_def l n i f ..
qed

lemma push_errors:
  "push_term dict row = Inl e \<Longrightarrow> e = TypeError"
  "push_kanji dict row = Inl e \<Longrightarrow> e = TypeError"
  "push_tag dict row = Inl e \<Longrightarrow> e = TypeError"
  "push_meta k dict row = Inl e \<Longrightarrow> e = TypeError"
proof -
  have it: "iterate v = Inl e \<Longrightarrow> e = TypeError" for v
    by (cases v) auto
  have cs: "csv_of v = Inl e \<Longrightarrow> e = TypeError" for v
    by (cases v) auto
  show "push_term dict row = Inl e \<Longrightarrow> e = TypeError"
    by (auto simp: push_term_def bind_err_def split: sum.splits dest: it cs)
  show "push_kanji dict row = Inl e \<Longrightarrow> e = TypeError"
    by (auto simp: push_kanji_def bind_err_def split: sum.splits dest: it cs)
  show "push_tag dict row = Inl e \<Longrightarrow> e = TypeError"
    by (auto simp: push_tag_def bind_err_def split: sum.splits dest: it)
  show "push_meta k dict row = Inl e \<Longrightarrow> e = TypeError"
    by (auto simp: push_meta_def bind_err_def Let_def split: sum.splits dest: it)
qed

text \<open>
  Against claim C1 as worded: an archive whose only tag row has one column instead of
  five, and whose only meta row has four instead of three, is imported. The missing
  columns of the tag are \<open>undefined\<close> and the fourth column of the meta row is dropped.
\<close>

theorem importSource_wrong_arity_imported:
  "importSource
     \<lparr>src_name = ''jmdict.zip'',
      src_list = [(''index.json'', JBool True), (''tag_bank_1.json'', JBool True),
                  (''term_meta_bank_1.json'', JBool True)],
      src_file = (\<lambda>n.
        if n = ''index.json'' then Some (JObj [(''format'', JNum 3)])
        else if n = ''tag_bank_1.json'' then Some (JArr [JArr [JStr ''v1'']])
        else if n = ''term_meta_bank_1.json''
          then Some (JArr [JArr [JStr ''neko'', JStr ''freq'', JNum 7, JStr ''extra'']])
        else None)\<rparr>
   = Inr \<lparr>r_index = JObj [(''format'', JNum 3)], r_terms = [], r_kanji = [],
          r_tags = [\<lparr>r_name = JStr ''v1'', r_category = JUndefined, r_order = JUndefined,
                     r_description = JUndefined, r_tag_score = JUndefined\<rparr>],
          r_terms_meta = [\<lparr>r_meta_expression = JStr ''neko'', r_mode = JStr ''freq'',
                           r_data = JNum 7\<rparr>],
          r_kanji_meta = []\<rparr>"
  by code_simp

text \<open>
  Claim C1, amended. The importer has no arity check. A row is read by position: a
  column that is missing reads as \<open>undefined\<close> and columns past the count of the kind
  are ignored, so an archive imports exactly as the archive whose rows are filled or cut
  to that count (term 8, kanji 6, tag 5, meta 3). A tag or meta row that is an array
  always decodes; a term or kanji row decodes when the columns that are split are
  strings; and the only error a row can raise is the run time's \<open>TypeError\<close>.
\<close>

theorem importSource_pads_and_truncates:
  "importSource (pad_source source) = importSource source
   \<and> push_tag dict (JArr cs) =
       Inr (dict\<lparr>r_tags := r_tags dict @
         [\<lparr>r_name = col cs 0, r_category = col cs 1, r_order = col cs 2,
           r_description = col cs 3, r_tag_score = col cs 4\<rparr>]\<rparr>)
   \<and> (\<exists>dict'. push_meta k dict (JArr cs) = Inr dict')
   \<and> (\<forall>a b c. col cs 2 = JStr a \<and> col cs 3 = JStr b \<and> col cs 7 = JStr c \<longrightarrow>
         (\<exists>dict'. push_term dict (JArr cs) = Inr dict'))
   \<and> (\<forall>a b c. col cs 1 = JStr a \<and> col cs 2 = JStr b \<and> col cs 3 = JStr c \<longrightarrow>
         (\<exists>dict'. push_kanji dict (JArr cs) = Inr dict'))
   \<and> (\<forall>e. push_term dict row = Inl e \<or> push_kanji dict row = Inl e
           \<or> push_tag dict row = Inl e \<or> push_meta k dict row = Inl e \<longrightarrow> e = TypeError)"
proof (intro conjI allI impI)
  show "importSource (pad_source source) = importSource source"
    by (rule importSource_pad)
  show "push_tag dict (JArr cs) =
       Inr (dict\<lparr>r_tags := r_tags dict @
         [\<lparr>r_name = col cs 0, r_category = col cs 1, r_order = col cs 2,
           r_description = col cs 3, r_tag_score = col cs 4\<rparr>]\<rparr>)"
    by (simp add: push_tag_def bind_err_def)
  show "\<exists>dict'. push_meta k dict (JArr cs) = Inr dict'"
    by (simp add: push_meta_def bind_err_def Let_def)
  show "\<exists>dict'. push_term dict (JArr cs) = Inr dict'"
    if "col cs 2 = JStr a \<and> col cs 3 = JStr b \<and> col cs 7 = JStr c" for a b c
    using that by (simp add: push_term_def bind_err_def)
  show "\<exists>dict'. push_kanji dict (JArr cs) = Inr dict'"
    if "col cs 1 = JStr a \<and> col cs 2 = JStr b \<and> col cs 3 = JStr c" for a b c
    using that by (simp add: push_kanji_def bind_err_def)
  show "e = TypeError"
    if "push_term dict row = Inl e \<or> push_kanji dict row = Inl e
           \<or> push_tag dict row = Inl e \<or> push_meta k dict row = Inl e" for e
    using that push_errors by blast
qed

theorem importSource_pads_and_truncates_witness:
  "push_tag \<lparr>r_index = JNull, r_terms = [], r_kanji = [], r_tags = [], r_terms_meta = [],
              r_kanji_meta = []\<rparr> (JArr [JStr ''v1''])
     = Inr \<lparr>r_index = JNull, r_terms = [], r_kanji = [],
            r_tags = [\<lparr>r_name = JStr ''v1'', r_category = JUndefined, r_order = JUndefined,
                       r_description = JUndefined, r_tag_score = JUndefined\<rparr>],
            r_terms_meta = [], r_kanji_meta = []\<rparr>
   \<and> (\<exists>dict'. push_term \<lparr>r_index = JNull, r_terms = [], r_kanji = [], r_tags = [],
              r_terms_meta = [], r_kanji_meta = []\<rparr>
            (JArr [JStr ''taberu'', JStr ''kana'', JStr '''', JStr ''v1'', JNum 0, JArr [], JNum 1,
                   JStr ''v1'', JStr ''ninth'']) = Inr dict')
   \<and> push_term \<lparr>r_index = JNull, r_terms = [], r_kanji = [], r_tags = [],
              r_terms_meta = [], r_kanji_meta = []\<rparr> (JArr [JStr ''taberu'', JStr ''kana''])
       = Inl TypeError"
proof -
  let ?d = "\<lparr>r_index = JNull, r_terms = [], r_kanji = [], r_tags = [], r_terms_meta = [],
              r_kanji_meta = []\<rparr>"
  let ?nine = "[JStr ''taberu'', JStr ''kana'', JStr '''', JStr ''v1'', JNum 0, JArr [], JNum 1,
                   JStr ''v1'', JStr ''ninth'']"
  have c: "col ?nine 2 = JStr '''' \<and> col ?nine 3 = JStr ''v1'' \<and> col ?nine 7 = JStr ''v1''"
    by (simp add: col_def)
  have s: "push_term ?d (JArr [JStr ''taberu'', JStr ''kana'']) = Inl TypeError"
    by (simp add: push_term_def bind_err_def col_def)
  show ?thesis
    using importSource_pads_and_truncates [of _ ?d "[JStr ''v1'']" _ "JArr [JStr ''taberu'', JStr ''kana'']"]
      importSource_pads_and_truncates [of _ ?d ?nine] c s
    by (simp add: col_def)
qed

section \<open>Properties of the probing loop\<close>

lemma tag_le_refl: "tag_le e e"
  by (simp add: tag_le_def)

lemma tag_le_trans: "tag_le a b \<Longrightarrow> tag_le b c \<Longrightarrow> tag_le a c"
  by (auto simp: tag_le_def)

lemma tag_le_fill: "tag_le current (fill current tag)"
  by (simp add: tag_le_def fill_def)

lemma absorbs_refl: "absorbs t t"
  by (simp add: absorbs_def)

lemma absorbs_fill: "canMerge tag current \<Longrightarrow> absorbs (fill current tag) tag"
  by (auto simp: absorbs_def fill_def canMerge_def)

lemma absorbs_mono: "absorbs e t \<Longrightarrow> tag_le e e' \<Longrightarrow> absorbs e' t"
  by (auto simp: absorbs_def tag_le_def)

text \<open>
  What \<open>probe\<close> returns: the id of some counter \<open>k\<close> from the start on, every earlier id
  being held by a tag the candidate cannot merge into, and the id at \<open>k\<close> being free or
  held by a tag it can merge into; the namespace changes at that id only.
\<close>

lemma probe_spec:
  "\<exists>k. c \<le> k
     \<and> (\<forall>j. c \<le> j \<and> j < k \<longrightarrow> (\<exists>cur. map_of ns (tag_id n j) = Some cur \<and> \<not> canMerge tag cur))
     \<and> (case map_of ns (tag_id n k) of
          None \<Rightarrow> probe ns tag n c = (tag_id n k, AList.update (tag_id n k) tag ns)
        | Some cur \<Rightarrow> canMerge tag cur
            \<and> probe ns tag n c = (tag_id n k, AList.update (tag_id n k) (fill cur tag) ns))"
proof (induction ns tag n c rule: probe.induct)
  case (1 ns tag n c)
  show ?case
  proof (cases "map_of ns (tag_id n c)")
    case None
    then have "probe ns tag n c = (tag_id n c, AList.update (tag_id n c) tag ns)"
      by (simp add: probe.simps [of ns tag n c])
    with None show ?thesis
      by (intro exI [of _ c]) auto
  next
    case (Some cur)
    show ?thesis
    proof (cases "canMerge tag cur")
      case True
      with Some have "probe ns tag n c = (tag_id n c, AList.update (tag_id n c) (fill cur tag) ns)"
        by (simp add: probe.simps [of ns tag n c])
      with Some True show ?thesis
        by (intro exI [of _ c]) auto
    next
      case False
      with Some have step: "probe ns tag n c = probe ns tag n (Suc c)"
        by (simp add: probe.simps [of ns tag n c])
      from "1.IH" [OF Some False] obtain k where k: "Suc c \<le> k"
        and before: "\<forall>j. Suc c \<le> j \<and> j < k \<longrightarrow>
            (\<exists>cur. map_of ns (tag_id n j) = Some cur \<and> \<not> canMerge tag cur)"
        and at: "case map_of ns (tag_id n k) of
            None \<Rightarrow> probe ns tag n (Suc c) = (tag_id n k, AList.update (tag_id n k) tag ns)
          | Some cur \<Rightarrow> canMerge tag cur
              \<and> probe ns tag n (Suc c) = (tag_id n k, AList.update (tag_id n k) (fill cur tag) ns)"
        by blast
      have "\<forall>j. c \<le> j \<and> j < k \<longrightarrow> (\<exists>cur. map_of ns (tag_id n j) = Some cur \<and> \<not> canMerge tag cur)"
      proof (intro allI impI)
        fix j assume j: "c \<le> j \<and> j < k"
        show "\<exists>cur. map_of ns (tag_id n j) = Some cur \<and> \<not> canMerge tag cur"
        proof (cases "j = c")
          case True
          with Some False show ?thesis by simp
        next
          case False
          with j before show ?thesis by simp
        qed
      qed
      moreover from k have "c \<le> k"
        by simp
      ultimately show ?thesis
        unfolding step using at by (intro exI [of _ k]) simp
    qed
  qed
qed

text \<open>The same, as a rule to take the result of \<open>probe\<close> apart.\<close>

lemma probe_elim:
  assumes "probe ns tag n c = (i, ns')"
  obtains k e where "c \<le> k" and "i = tag_id n k" and "ns' = AList.update i e ns"
    and "\<forall>j. c \<le> j \<and> j < k \<longrightarrow> (\<exists>cur. map_of ns (tag_id n j) = Some cur \<and> \<not> canMerge tag cur)"
    and "map_of ns i = None \<and> e = tag
         \<or> (\<exists>cur. map_of ns i = Some cur \<and> canMerge tag cur \<and> e = fill cur tag)"
proof -
  from probe_spec [of c ns n tag] obtain k where k: "c \<le> k"
    and before: "\<forall>j. c \<le> j \<and> j < k \<longrightarrow>
        (\<exists>cur. map_of ns (tag_id n j) = Some cur \<and> \<not> canMerge tag cur)"
    and at: "case map_of ns (tag_id n k) of
        None \<Rightarrow> probe ns tag n c = (tag_id n k, AList.update (tag_id n k) tag ns)
      | Some cur \<Rightarrow> canMerge tag cur
          \<and> probe ns tag n c = (tag_id n k, AList.update (tag_id n k) (fill cur tag) ns)"
    by blast
  show thesis
  proof (cases "map_of ns (tag_id n k)")
    case None
    with at assms have "i = tag_id n k" "ns' = AList.update i tag ns"
      by simp_all
    with None k before that [of k tag] show thesis by simp
  next
    case (Some cur)
    with at assms have "canMerge tag cur" "i = tag_id n k" "ns' = AList.update i (fill cur tag) ns"
      by simp_all
    with Some k before that [of k "fill cur tag"] show thesis by simp
  qed
qed

section \<open>Collisions and merging\<close>

lemma tag_id_simps:
  "tag_id n 1 = n" "tag_id n (Suc 0) = n" "tag_id n 2 = n @ ''-2''" "tag_id n (Suc (Suc 0)) = n @ ''-2''"
  "tag_id n 3 = n @ ''-3''"
proof -
  have "show_nat 2 = ''2''" "show_nat 3 = ''3''"
    by code_simp+
  then show "tag_id n 1 = n" "tag_id n (Suc 0) = n" "tag_id n 2 = n @ ''-2''"
    "tag_id n (Suc (Suc 0)) = n @ ''-2''" "tag_id n 3 = n @ ''-3''"
    by (simp_all add: tag_id_def numeral_2_eq_2 [symmetric])
qed

lemma cleanup_default: "cleanup default_args usage ns = ns"
  by (simp add: cleanup_def default_args_def)

lemma mergeTags_two_dictionaries:
  assumes "name t2 = name t1"
  shows "fst (mergeTags [tags_only ix1 [t1], tags_only ix2 [t2]] default_args) =
     (if canMerge t2 t1 then [(name t1, fill t1 t2)]
      else [(name t1, t1), (name t1 @ ''-2'', t2)])"
proof -
  let ?n = "name t1"
  have first: "mergeDict (tags_only ix1 [t1]) \<lparr>st_tags = [], st_tagUsage = [], st_mapped = []\<rparr>
      = (tags_only ix1 [t1], \<lparr>st_tags = [(?n, t1)], st_tagUsage = [], st_mapped = [(?n, ?n)]\<rparr>)"
    by (simp add: mergeDict_def tags_only_def seedTags_def byName_of_def mapTag_def candidate_def
        probe.simps [of "[]"] tag_id_simps use_if_def)
  have second: "st_tags (snd (mergeDict (tags_only ix2 [t2])
        \<lparr>st_tags = [(?n, t1)], st_tagUsage = [], st_mapped = [(?n, ?n)]\<rparr>))
      = (if canMerge t2 t1 then [(?n, fill t1 t2)] else [(?n, t1), (?n @ ''-2'', t2)])"
    using assms
    by (simp add: mergeDict_def tags_only_def seedTags_def byName_of_def mapTag_def candidate_def
        probe.simps [of "[(name t1, t1)]"] tag_id_simps use_if_def)
  obtain d2 s2 where m2: "mergeDict (tags_only ix2 [t2])
        \<lparr>st_tags = [(?n, t1)], st_tagUsage = [], st_mapped = [(?n, ?n)]\<rparr> = (d2, s2)"
    by (cases "mergeDict (tags_only ix2 [t2])
        \<lparr>st_tags = [(?n, t1)], st_tagUsage = [], st_mapped = [(?n, ?n)]\<rparr>")
  with second have "st_tags s2 = (if canMerge t2 t1 then [(?n, fill t1 t2)]
      else [(?n, t1), (?n @ ''-2'', t2)])"
    by simp
  then show ?thesis
    by (simp add: mergeTags_def reconcile_def first m2 cleanup_default)
qed



lemma probe_skips_incompatible:
  assumes "map_of ns (tag_id n c) = Some cur" and "\<not> canMerge tag cur"
  shows "probe ns tag n c = probe ns tag n (Suc c)"
    and "fst (probe ns tag n c) \<noteq> tag_id n c"
    and "map_of (snd (probe ns tag n c)) (tag_id n c) = Some cur"
proof -
  show step: "probe ns tag n c = probe ns tag n (Suc c)"
    using assms by (simp add: probe.simps [of ns tag n c])
  obtain i ns' where p: "probe ns tag n (Suc c) = (i, ns')"
    by (cases "probe ns tag n (Suc c)")
  from p obtain k e where k: "Suc c \<le> k" "i = tag_id n k" "ns' = AList.update i e ns"
    by (rule probe_elim)
  from k have ne: "i \<noteq> tag_id n c"
    using tag_id_inject [of n k c] by auto
  with p step show "fst (probe ns tag n c) \<noteq> tag_id n c"
    by simp
  from ne k assms p step show "map_of (snd (probe ns tag n c)) (tag_id n c) = Some cur"
    by (simp add: update_conv')
qed

text \<open>
  Claim C4. When the occupant of the id is compatible with the candidate, the candidate
  is merged into it: each of category, description, order and score of the occupant is
  taken from the candidate when it is empty or zero and kept otherwise, and the name is
  kept. So a candidate of category \<open>verb\<close> gives an occupant without category the
  category \<open>verb\<close>; an occupant of category \<open>noun\<close> is not compatible with it, is left as
  it is, and the candidate goes to a later id.
\<close>

theorem merge_fills_gaps:
  "(map_of ns (tag_id n c) = Some cur \<and> canMerge tag cur \<longrightarrow>
      probe ns tag n c = (tag_id n c, AList.update (tag_id n c) (fill cur tag) ns))
   \<and> name (fill cur tag) = name cur
   \<and> category (fill cur tag) = (if category cur = [] then category tag else category cur)
   \<and> description (fill cur tag) = (if description cur = [] then description tag else description cur)
   \<and> order (fill cur tag) = (if order cur = 0 then order tag else order cur)
   \<and> score (fill cur tag) = (if score cur = 0 then score tag else score cur)
   \<and> canMerge (tag\<lparr>category := ''verb''\<rparr>) (cur\<lparr>category := [], description := []\<rparr>)
   \<and> category (fill (cur\<lparr>category := []\<rparr>) (tag\<lparr>category := ''verb''\<rparr>)) = ''verb''
   \<and> \<not> canMerge (tag\<lparr>category := ''verb''\<rparr>) (cur\<lparr>category := ''noun''\<rparr>)
   \<and> (map_of ns (tag_id n c) = Some cur \<and> \<not> canMerge tag cur \<longrightarrow>
        probe ns tag n c = probe ns tag n (Suc c)
        \<and> fst (probe ns tag n c) \<noteq> tag_id n c
        \<and> map_of (snd (probe ns tag n c)) (tag_id n c) = Some cur)"
proof -
  have 1: "map_of ns (tag_id n c) = Some cur \<and> canMerge tag cur \<longrightarrow>
      probe ns tag n c = (tag_id n c, AList.update (tag_id n c) (fill cur tag) ns)"
    by (simp add: probe.simps [of ns tag n c])
  have 2: "map_of ns (tag_id n c) = Some cur \<and> \<not> canMerge tag cur \<longrightarrow>
        probe ns tag n c = probe ns tag n (Suc c)
        \<and> fst (probe ns tag n c) \<noteq> tag_id n c
        \<and> map_of (snd (probe ns tag n c)) (tag_id n c) = Some cur"
    using probe_skips_incompatible [of ns n c cur tag] by blast
  have 3: "\<not> canMerge (tag\<lparr>category := ''verb''\<rparr>) (cur\<lparr>category := ''noun''\<rparr>)"
    by (simp add: canMerge_def)
  have 4: "canMerge (tag\<lparr>category := ''verb''\<rparr>) (cur\<lparr>category := [], description := []\<rparr>)"
    by (simp add: canMerge_def)
  have 5: "name (fill cur tag) = name cur"
    "category (fill cur tag) = (if category cur = [] then category tag else category cur)"
    "description (fill cur tag) = (if description cur = [] then description tag else description cur)"
    "order (fill cur tag) = (if order cur = 0 then order tag else order cur)"
    "score (fill cur tag) = (if score cur = 0 then score tag else score cur)"
    "category (fill (cur\<lparr>category := []\<rparr>) (tag\<lparr>category := ''verb''\<rparr>)) = ''verb''"
    by (simp_all add: fill_def)
  show ?thesis
    by (intro conjI; (rule 1 2 3 4 5))
qed

theorem merge_fills_gaps_witness:
  "probe [(''v5'', \<lparr>name = ''v5'', category = [], order = 3, description = ''godan'', score = 0\<rparr>)]
     \<lparr>name = ''v5'', category = ''verb'', order = 7, description = [], score = 5\<rparr> ''v5'' 1
   = (''v5'', [(''v5'', \<lparr>name = ''v5'', category = ''verb'', order = 3, description = ''godan'', score = 5\<rparr>)])
   \<and> probe [(''v5'', \<lparr>name = ''v5'', category = ''noun'', order = 3, description = ''godan'', score = 0\<rparr>)]
     \<lparr>name = ''v5'', category = ''verb'', order = 7, description = [], score = 5\<rparr> ''v5'' 1
   = (''v5-2'', [(''v5'', \<lparr>name = ''v5'', category = ''noun'', order = 3, description = ''godan'', score = 0\<rparr>),
                 (''v5-2'', \<lparr>name = ''v5'', category = ''verb'', order = 7, description = [], score = 5\<rparr>)])"
proof -
  let ?occ = "\<lparr>name = ''v5'', category = [], order = 3, description = ''godan'', score = 0\<rparr>"
  let ?noun = "\<lparr>name = ''v5'', category = ''noun'', order = 3, description = ''godan'', score = 0\<rparr>"
  let ?tag = "\<lparr>name = ''v5'', category = ''verb'', order = 7, description = [], score = 5\<rparr>"
  have next_free: "probe [(''v5'', ?noun)] ?tag ''v5'' (Suc 1) = (''v5-2'', [(''v5'', ?noun), (''v5-2'', ?tag)])"
    by (simp add: probe.simps [of _ _ _ "Suc (Suc 0)"] tag_id_simps)
  show ?thesis
    using merge_fills_gaps [of "[(''v5'', ?occ)]" "''v5''" 1 ?occ ?tag]
      merge_fills_gaps [of "[(''v5'', ?noun)]" "''v5''" 1 ?noun ?tag] next_free
    by (simp add: tag_id_simps canMerge_def fill_def)
qed

section \<open>The invariant of a run\<close>

lemma ns_le_refl: "ns_le ns ns"
  by (auto simp: ns_le_def tag_le_refl)

lemma ns_le_trans: "ns_le a b \<Longrightarrow> ns_le b c \<Longrightarrow> ns_le a c"
  unfolding ns_le_def by (meson tag_le_trans)

lemma st_le_refl: "st_le st st"
  by (simp add: st_le_def ns_le_refl)

lemma st_le_trans: "st_le a b \<Longrightarrow> st_le b c \<Longrightarrow> st_le a c"
  unfolding st_le_def using ns_le_trans by blast

lemma resolved_mono:
  assumes "resolved b st n i" and "st_le st st'"
  shows "resolved b st' n i"
proof -
  from assms(1) obtain e where e: "is_id_of n i" "map_of (st_tags st) i = Some e"
    "absorbs e (candidate b n)"
    by (auto simp: resolved_def)
  with assms(2) obtain e' where "map_of (st_tags st') i = Some e'" "tag_le e e'"
    unfolding st_le_def ns_le_def by blast
  with e show ?thesis
    using absorbs_mono by (auto simp: resolved_def)
qed

lemma used_ref_mono: "used_ref b st n i \<Longrightarrow> st_le st st' \<Longrightarrow> used_ref b st' n i"
  using resolved_mono by (auto simp: used_ref_def st_le_def)

lemma isUsed_useTag: "isUsed (useTag i u) k \<longleftrightarrow> k = i \<or> isUsed u k"
  by (auto simp: isUsed_def useTag_def update_conv' split: option.splits)

lemma use_if_tags [simp]:
  "st_tags (use_if used i st) = st_tags st" "st_mapped (use_if used i st) = st_mapped st"
  by (simp_all add: use_if_def)

lemma isUsed_use_if:
  "isUsed (st_tagUsage (use_if used i st)) k \<longleftrightarrow> (used \<and> k = i) \<or> isUsed (st_tagUsage st) k"
  by (simp add: use_if_def isUsed_useTag)

lemma probe_step:
  assumes inv: "ns_inv ns" and nm: "name tag = n" and p: "probe ns tag n 1 = (i, ns')"
  shows "ns_inv ns'" and "ns_le ns ns'" and "is_id_of n i"
    and "\<exists>e. map_of ns' i = Some e \<and> absorbs e tag"
proof -
  from p obtain k e where k: "1 \<le> k" "i = tag_id n k" and ns': "ns' = AList.update i e ns"
    and e: "map_of ns i = None \<and> e = tag
         \<or> (\<exists>cur. map_of ns i = Some cur \<and> canMerge tag cur \<and> e = fill cur tag)"
    by (rule probe_elim)
  have m: "map_of ns' = (map_of ns)(i \<mapsto> e)"
    by (simp add: ns' update_conv')
  from k show id: "is_id_of n i"
    by (auto simp: is_id_of_def)
  have name_e: "is_id_of (name e) i"
  proof -
    from e show ?thesis
    proof
      assume "map_of ns i = None \<and> e = tag"
      with nm id show ?thesis by simp
    next
      assume "\<exists>cur. map_of ns i = Some cur \<and> canMerge tag cur \<and> e = fill cur tag"
      then obtain cur where "map_of ns i = Some cur" "e = fill cur tag" by blast
      moreover from this inv have "is_id_of (name cur) i"
        by (simp add: ns_inv_def)
      ultimately show ?thesis by (simp add: fill_def)
    qed
  qed
  from inv have "distinct (map fst ns')"
    by (simp add: ns' ns_inv_def distinct_update)
  moreover have "is_id_of (name e0) j" if "map_of ns' j = Some e0" for j e0
    using that inv name_e by (auto simp: m ns_inv_def split: if_splits)
  ultimately show "ns_inv ns'"
    by (simp add: ns_inv_def)
  show "ns_le ns ns'"
    unfolding ns_le_def
  proof (intro allI impI)
    fix j e0 assume j: "map_of ns j = Some e0"
    show "\<exists>e'. map_of ns' j = Some e' \<and> tag_le e0 e'"
    proof (cases "j = i")
      case True
      with j e have "e = fill e0 tag" by auto
      with True show ?thesis by (simp add: m tag_le_fill)
    next
      case False
      with j show ?thesis by (simp add: m tag_le_refl)
    qed
  qed
  from e show "\<exists>e. map_of ns' i = Some e \<and> absorbs e tag"
    by (auto simp: m absorbs_refl absorbs_fill)
qed

lemma candidate_name: "st_inv b st \<Longrightarrow> name (candidate b n) = n"
  by (auto simp: st_inv_def candidate_def split: option.splits)

lemma mapTag_fresh:
  assumes inv: "st_inv b st"
    and p: "probe (st_tags st) (candidate b n) n 1 = (i, ns')"
    and st': "st' = use_if used i (st\<lparr>st_tags := ns', st_mapped := AList.update n i (st_mapped st)\<rparr>)"
  shows "st_inv b st' \<and> st_le st st' \<and> resolved b st' n i \<and> (used \<longrightarrow> isUsed (st_tagUsage st') i)"
proof -
  from inv have ns: "ns_inv (st_tags st)"
    by (simp add: st_inv_def)
  note step = probe_step [OF ns candidate_name [OF inv] p]
  have le: "st_le st st'"
    using step(2) by (simp add: st_le_def st' isUsed_use_if)
  have res: "resolved b st' n i"
    using step(3,4) by (simp add: resolved_def st')
  have "resolved b st' m j" if "map_of (st_mapped st') m = Some j" "j \<noteq> []" for m j
  proof (cases "m = n")
    case True
    with that res show ?thesis by (simp add: st' update_conv')
  next
    case False
    with that have "map_of (st_mapped st) m = Some j"
      by (simp add: st' update_conv')
    with that inv have "resolved b st m j"
      by (simp add: st_inv_def)
    then show ?thesis using le by (rule resolved_mono)
  qed
  with inv step(1) have "st_inv b st'"
    by (simp add: st_inv_def st')
  with le res show ?thesis
    by (simp add: st' isUsed_use_if)
qed

lemma mapTag_step:
  assumes inv: "st_inv b st" and m: "mapTag b n used st = (i, st')"
  shows "st_inv b st'" and "st_le st st'" and "resolved b st' n i"
    and "used \<Longrightarrow> isUsed (st_tagUsage st') i"
proof -
  obtain j ns' where p: "probe (st_tags st) (candidate b n) n 1 = (j, ns')"
    by (cases "probe (st_tags st) (candidate b n) n 1")
  have "st_inv b st' \<and> st_le st st' \<and> resolved b st' n i \<and> (used \<longrightarrow> isUsed (st_tagUsage st') i)"
  proof (cases "\<exists>c. map_of (st_mapped st) n = Some c \<and> c \<noteq> []")
    case True
    then obtain c where c: "map_of (st_mapped st) n = Some c" "c \<noteq> []" by blast
    with m have r: "i = c" "st' = use_if used c st"
      by (auto simp: mapTag_def)
    from c inv have "resolved b st n c"
      by (simp add: st_inv_def)
    moreover have "st_le st st'"
      by (simp add: st_le_def r ns_le_refl isUsed_use_if)
    moreover from inv have "st_inv b st'"
      by (simp add: st_inv_def r resolved_def)
    ultimately show ?thesis
      using r by (simp add: resolved_def isUsed_use_if)
  next
    case False
    with m p have "i = j"
      and "st' = use_if used j (st\<lparr>st_tags := ns', st_mapped := AList.update n j (st_mapped st)\<rparr>)"
      by (auto simp: mapTag_def split: option.splits if_splits)
    with mapTag_fresh [OF inv p] show ?thesis by simp
  qed
  then show "st_inv b st'" and "st_le st st'" and "resolved b st' n i"
    and "used \<Longrightarrow> isUsed (st_tagUsage st') i"
    by simp_all
qed

section \<open>The loops over references, entries and dictionaries\<close>

lemma map_state_step:
  assumes step: "\<And>x s y s'. I s \<Longrightarrow> f x s = (y, s') \<Longrightarrow> I s' \<and> st_le s s' \<and> Q s' x y"
    and mono: "\<And>x y s s'. Q s x y \<Longrightarrow> st_le s s' \<Longrightarrow> Q s' x y"
  shows "I s \<Longrightarrow> map_state f xs s = (ys, s') \<Longrightarrow> I s' \<and> st_le s s' \<and> list_all2 (Q s') xs ys"
proof (induction xs arbitrary: s ys s')
  case Nil
  then show ?case by (simp add: st_le_refl)
next
  case (Cons x xs)
  obtain y s1 where f: "f x s = (y, s1)"
    by (cases "f x s")
  obtain zs s2 where r: "map_state f xs s1 = (zs, s2)"
    by (cases "map_state f xs s1")
  from Cons.prems(2) f r have eq: "ys = y # zs" "s' = s2"
    by simp_all
  from step [OF Cons.prems(1) f] have 1: "I s1" "st_le s s1" "Q s1 x y"
    by simp_all
  from Cons.IH [OF 1(1) r] have 2: "I s2" "st_le s1 s2" "list_all2 (Q s2) xs zs"
    by simp_all
  from 1(3) 2(2) have "Q s2 x y"
    by (rule mono)
  with 1 2 eq show ?case
    using st_le_trans by auto
qed

lemma mapTags_step:
  assumes "st_inv b st" and "mapTags b ns st = (is, st')"
  shows "st_inv b st'" and "st_le st st'" and "list_all2 (used_ref b st') ns is"
proof -
  have "st_inv b st' \<and> st_le st st' \<and> list_all2 (used_ref b st') ns is"
  proof (rule map_state_step [where f = "\<lambda>x. mapTag b x True" and I = "st_inv b"])
    show "st_inv b s' \<and> st_le s s' \<and> used_ref b s' x y"
      if "st_inv b s" "mapTag b x True s = (y, s')" for x s y s'
      using mapTag_step [OF that] by (simp add: used_ref_def)
    show "used_ref b s' x y" if "used_ref b s x y" "st_le s s'" for x y s s'
      using that by (rule used_ref_mono)
    show "st_inv b st" by fact
    show "map_state (\<lambda>x. mapTag b x True) ns st = (is, st')"
      using assms(2) by (simp add: mapTags_def)
  qed
  then show "st_inv b st'" and "st_le st st'" and "list_all2 (used_ref b st') ns is"
    by simp_all
qed

lemma list_all2_used_ref_mono:
  "list_all2 (used_ref b st) ns is \<Longrightarrow> st_le st st' \<Longrightarrow> list_all2 (used_ref b st') ns is"
  by (erule list_all2_mono) (rule used_ref_mono)

lemma term_rel_mono:
  "term_rel (used_ref b st) t t' \<Longrightarrow> st_le st st' \<Longrightarrow> term_rel (used_ref b st') t t'"
  unfolding term_rel_def using list_all2_used_ref_mono by blast

lemma stats_rel_mono:
  "stats_rel (used_ref b st) kvs kvs' \<Longrightarrow> st_le st st' \<Longrightarrow> stats_rel (used_ref b st') kvs kvs'"
  unfolding stats_rel_def using used_ref_mono by meson

lemma kanji_rel_mono:
  "kanji_rel (used_ref b st) k k' \<Longrightarrow> st_le st st' \<Longrightarrow> kanji_rel (used_ref b st') k k'"
  unfolding kanji_rel_def using list_all2_used_ref_mono stats_rel_mono by blast

lemma mapTerm_step:
  assumes inv: "st_inv b st" and m: "mapTerm b it st = (it', st')"
  shows "st_inv b st' \<and> st_le st st' \<and> term_rel (used_ref b st') it it'"
proof -
  obtain tt s1 where 1: "mapTags b (term_tags it) st = (tt, s1)"
    by (cases "mapTags b (term_tags it) st")
  obtain dt s2 where 2: "mapTags b (definition_tags it) s1 = (dt, s2)"
    by (cases "mapTags b (definition_tags it) s1")
  obtain rs s3 where 3: "mapTags b (rules it) s2 = (rs, s3)"
    by (cases "mapTags b (rules it) s2")
  from m 1 2 3 have r: "it' = it\<lparr>term_tags := tt, definition_tags := dt, rules := rs\<rparr>" "st' = s3"
    by (simp_all add: mapTerm_def)
  note a = mapTags_step [OF inv 1]
  note b = mapTags_step [OF a(1) 2]
  note c = mapTags_step [OF b(1) 3]
  have le23: "st_le s2 s3" and le13: "st_le s1 s3" and le03: "st_le st s3"
    using a(2) b(2) c(2) st_le_trans by blast+
  have "list_all2 (used_ref b s3) (term_tags it) tt"
    using a(3) le13 by (rule list_all2_used_ref_mono)
  moreover have "list_all2 (used_ref b s3) (definition_tags it) dt"
    using b(3) le23 by (rule list_all2_used_ref_mono)
  ultimately have "term_rel (used_ref b s3) it it'"
    using c(3) by (simp add: term_rel_def r)
  with c(1) le03 r show ?thesis by simp
qed

lemma mapStats_step:
  assumes "st_inv b st" and "mapStats b kvs acc st = (ms, st')"
  shows "st_inv b st' \<and> st_le st st'
    \<and> (\<forall>i \<in> fst ` set ms. i \<in> fst ` set acc \<or> (\<exists>n \<in> fst ` set kvs. used_ref b st' n i))
    \<and> fst ` set acc \<subseteq> fst ` set ms
    \<and> (\<forall>n \<in> fst ` set kvs. \<exists>i \<in> fst ` set ms. used_ref b st' n i)"
  using assms
proof (induction kvs arbitrary: acc st)
  case Nil
  then show ?case by (simp add: st_le_refl)
next
  case (Cons kv kvs)
  obtain key v where kv: "kv = (key, v)"
    by (cases kv)
  obtain i s1 where t: "mapTag b key True st = (i, s1)"
    by (cases "mapTag b key True st")
  from Cons.prems(2) kv t have r: "mapStats b kvs (AList.update i v acc) s1 = (ms, st')"
    by simp
  note a = mapTag_step [OF Cons.prems(1) t]
  from a(3) a(4) have u: "used_ref b s1 key i"
    by (simp add: used_ref_def)
  from Cons.IH [OF a(1) r] have ih: "st_inv b st'" "st_le s1 st'"
    "\<forall>j \<in> fst ` set ms. j \<in> fst ` set (AList.update i v acc) \<or> (\<exists>n \<in> fst ` set kvs. used_ref b st' n j)"
    "fst ` set (AList.update i v acc) \<subseteq> fst ` set ms"
    "\<forall>n \<in> fst ` set kvs. \<exists>j \<in> fst ` set ms. used_ref b st' n j"
    by simp_all
  from u ih(2) have u': "used_ref b st' key i"
    by (rule used_ref_mono)
  have keys: "fst ` set (AList.update i v acc) = insert i (fst ` set acc)"
    by (simp add: dom_update)
  have key_in: "key \<in> fst ` set (kv # kvs)" and rest_in: "fst ` set kvs \<subseteq> fst ` set (kv # kvs)"
    by (auto simp: kv)
  have i_in: "i \<in> fst ` set ms" and 2: "fst ` set acc \<subseteq> fst ` set ms"
    using ih(4) unfolding keys by simp_all
  have 1: "\<forall>j \<in> fst ` set ms. j \<in> fst ` set acc \<or> (\<exists>n \<in> fst ` set (kv # kvs). used_ref b st' n j)"
  proof
    fix j assume "j \<in> fst ` set ms"
    with ih(3) have "j \<in> insert i (fst ` set acc) \<or> (\<exists>n \<in> fst ` set kvs. used_ref b st' n j)"
      unfolding keys by (rule bspec)
    then consider "j = i" | "j \<in> fst ` set acc" | "\<exists>n \<in> fst ` set kvs. used_ref b st' n j"
      by blast
    then show "j \<in> fst ` set acc \<or> (\<exists>n \<in> fst ` set (kv # kvs). used_ref b st' n j)"
    proof cases
      case 1
      with u' key_in show ?thesis by blast
    next
      case 2
      then show ?thesis by simp
    next
      case 3
      with rest_in show ?thesis by blast
    qed
  qed
  have 3: "\<forall>n \<in> fst ` set (kv # kvs). \<exists>j \<in> fst ` set ms. used_ref b st' n j"
  proof
    fix n assume "n \<in> fst ` set (kv # kvs)"
    then have "n = key \<or> n \<in> fst ` set kvs"
      by (auto simp: kv)
    then show "\<exists>j \<in> fst ` set ms. used_ref b st' n j"
    proof
      assume "n = key"
      with u' i_in show ?thesis by blast
    next
      assume "n \<in> fst ` set kvs"
      with ih(5) show ?thesis by (rule bspec)
    qed
  qed
  have "st_le st st'"
    using a(2) ih(2) by (rule st_le_trans)
  with ih(1) 1 2 3 show ?case
    by (intro conjI)
qed

lemma mapKanji_step:
  assumes inv: "st_inv b st" and m: "mapKanji b it st = (it', st')"
  shows "st_inv b st' \<and> st_le st st' \<and> kanji_rel (used_ref b st') it it'"
proof -
  obtain ts s1 where 1: "mapTags b (kanji_tags it) st = (ts, s1)"
    by (cases "mapTags b (kanji_tags it) st")
  obtain ms s2 where 2: "mapStats b (stats it) [] s1 = (ms, s2)"
    by (cases "mapStats b (stats it) [] s1")
  from m 1 2 have r: "it' = it\<lparr>kanji_tags := ts, stats := ms\<rparr>" "st' = s2"
    by (simp_all add: mapKanji_def)
  note a = mapTags_step [OF inv 1]
  from mapStats_step [OF a(1) 2] have c: "st_inv b s2" "st_le s1 s2"
    "\<forall>i \<in> fst ` set ms. \<exists>n \<in> fst ` set (stats it). used_ref b s2 n i"
    "\<forall>n \<in> fst ` set (stats it). \<exists>i \<in> fst ` set ms. used_ref b s2 n i"
    by simp_all
  have "list_all2 (used_ref b s2) (kanji_tags it) ts"
    using a(3) c(2) by (rule list_all2_used_ref_mono)
  with c(3,4) have "kanji_rel (used_ref b s2) it it'"
    by (simp add: kanji_rel_def stats_rel_def r)
  with c(1) a(2) c(2) r show ?thesis
    using st_le_trans by blast
qed

lemma seedTags_step:
  "st_inv b st \<Longrightarrow>
     st_inv b (seedTags b ts st) \<and> st_le st (seedTags b ts st)
     \<and> (\<forall>t \<in> set ts. \<exists>i. resolved b (seedTags b ts st) (name t) i)"
proof (induction ts arbitrary: st)
  case Nil
  then show ?case by (simp add: seedTags_def st_le_refl)
next
  case (Cons t ts)
  obtain i s1 where m: "mapTag b (name t) False st = (i, s1)"
    by (cases "mapTag b (name t) False st")
  then have unfold: "seedTags b (t # ts) st = seedTags b ts s1"
    by (simp add: seedTags_def)
  note a = mapTag_step [OF Cons.prems m]
  from Cons.IH [OF a(1)] have ih: "st_inv b (seedTags b ts s1)" "st_le s1 (seedTags b ts s1)"
    "\<forall>t \<in> set ts. \<exists>i. resolved b (seedTags b ts s1) (name t) i"
    by simp_all
  from a(3) ih(2) have "resolved b (seedTags b ts s1) (name t) i"
    by (rule resolved_mono)
  with ih a(2) show ?case
    unfolding unfold using st_le_trans by auto
qed

lemma byName_of_names: "map_of (byName_of ts) n = Some t \<Longrightarrow> name t = n"
proof -
  have "(\<And>n t. map_of m n = Some t \<Longrightarrow> name t = n) \<Longrightarrow>
      map_of (foldl (\<lambda>m x. AList.update (name x) x m) m ts) n = Some t \<Longrightarrow> name t = n" for m
  proof (induction ts arbitrary: m)
    case Nil
    then show ?case by simp
  next
    case (Cons x xs)
    show ?case
    proof (rule Cons.IH [of "AList.update (name x) x m"])
      show "name t' = n'" if "map_of (AList.update (name x) x m) n' = Some t'" for n' t'
        using that Cons.prems(1) [of n' t'] by (auto simp: update_conv' split: if_splits)
      show "map_of (foldl (\<lambda>m x. AList.update (name x) x m) (AList.update (name x) x m) xs) n = Some t"
        using Cons.prems(2) by simp
    qed
  qed
  from this [of "[]"] show "map_of (byName_of ts) n = Some t \<Longrightarrow> name t = n"
    by (simp add: byName_of_def)
qed

lemma dict_done_mono:
  assumes "dict_done st d d'" and "st_le st st'"
  shows "dict_done st' d d'"
proof (cases "tags d = []")
  case True
  with assms show ?thesis by (simp add: dict_done_def)
next
  case False
  let ?b = "byName_of (tags d)"
  from False assms(1) have r: "dict_rel (used_ref ?b st) d d'"
    and s: "\<forall>t \<in> set (tags d). \<exists>i. resolved ?b st (name t) i"
    by (simp_all add: dict_done_def)
  from r have "list_all2 (term_rel (used_ref ?b st')) (terms d) (terms d')"
    unfolding dict_rel_def using term_rel_mono [OF _ assms(2)] list_all2_mono by blast
  moreover from r have "list_all2 (kanji_rel (used_ref ?b st')) (kanji d) (kanji d')"
    unfolding dict_rel_def using kanji_rel_mono [OF _ assms(2)] list_all2_mono by blast
  moreover from r have "d' = d\<lparr>terms := terms d', kanji := kanji d'\<rparr>"
    by (simp add: dict_rel_def)
  ultimately have "dict_rel (used_ref ?b st') d d'"
    by (simp add: dict_rel_def)
  moreover from s have "\<forall>t \<in> set (tags d). \<exists>i. resolved ?b st' (name t) i"
    using resolved_mono [OF _ assms(2)] by blast
  ultimately show ?thesis
    using False by (simp add: dict_done_def)
qed

lemma mergeDict_step:
  assumes inv: "ns_inv (st_tags st)" and m: "mergeDict d st = (d', st')"
  shows "ns_inv (st_tags st') \<and> st_le st st' \<and> dict_done st' d d'"
proof (cases "tags d = []")
  case True
  with m have "d' = d" "st' = st"
    by (simp_all add: mergeDict_def)
  with inv True show ?thesis
    by (simp add: st_le_refl dict_done_def)
next
  case False
  let ?b = "byName_of (tags d)"
  let ?s0 = "st\<lparr>st_mapped := []\<rparr>"
  let ?s1 = "seedTags ?b (tags d) ?s0"
  have inv0: "st_inv ?b ?s0"
    using inv byName_of_names by (simp add: st_inv_def)
  have le0: "st_le st ?s0"
    by (simp add: st_le_def ns_le_refl)
  from seedTags_step [OF inv0] have seed: "st_inv ?b ?s1" "st_le ?s0 ?s1"
    "\<forall>t \<in> set (tags d). \<exists>i. resolved ?b ?s1 (name t) i"
    by simp_all
  obtain ts s2 where 1: "map_state (mapTerm ?b) (terms d) ?s1 = (ts, s2)"
    by (cases "map_state (mapTerm ?b) (terms d) ?s1")
  obtain ks s3 where 2: "map_state (mapKanji ?b) (kanji d) s2 = (ks, s3)"
    by (cases "map_state (mapKanji ?b) (kanji d) s2")
  from m False 1 2 have r: "d' = d\<lparr>terms := ts, kanji := ks\<rparr>" "st' = s3"
    by (simp_all add: mergeDict_def)
  have t: "st_inv ?b s2 \<and> st_le ?s1 s2 \<and> list_all2 (\<lambda>x y. term_rel (used_ref ?b s2) x y) (terms d) ts"
    using seed(1) 1
    by (rule map_state_step [where Q = "\<lambda>s. term_rel (used_ref ?b s)", rotated 2])
      (simp_all add: mapTerm_step term_rel_mono)
  then have t': "st_inv ?b s2" "st_le ?s1 s2" "list_all2 (term_rel (used_ref ?b s2)) (terms d) ts"
    by simp_all
  have k: "st_inv ?b s3 \<and> st_le s2 s3 \<and> list_all2 (\<lambda>x y. kanji_rel (used_ref ?b s3) x y) (kanji d) ks"
    using t'(1) 2
    by (rule map_state_step [where Q = "\<lambda>s. kanji_rel (used_ref ?b s)", rotated 2])
      (simp_all add: mapKanji_step kanji_rel_mono)
  then have k': "st_inv ?b s3" "st_le s2 s3" "list_all2 (kanji_rel (used_ref ?b s3)) (kanji d) ks"
    by simp_all
  have le13: "st_le ?s1 s3" and le03: "st_le st s3"
    using le0 seed(2) t'(2) k'(2) st_le_trans by blast+
  have "list_all2 (term_rel (used_ref ?b s3)) (terms d) ts"
    using t'(3) term_rel_mono [OF _ k'(2)] list_all2_mono by blast
  with k'(3) have "dict_rel (used_ref ?b s3) d d'"
    by (simp add: dict_rel_def r)
  moreover have "\<forall>t \<in> set (tags d). \<exists>i. resolved ?b s3 (name t) i"
    using seed(3) resolved_mono [OF _ le13] by blast
  ultimately have "dict_done s3 d d'"
    using False by (simp add: dict_done_def)
  with k'(1) le03 r show ?thesis
    by (simp add: st_inv_def)
qed

lemma reconcile_step:
  assumes "reconcile ds = (ds', st)"
  shows "ns_inv (st_tags st)" and "list_all2 (dict_done st) ds ds'"
proof -
  let ?init = "\<lparr>st_tags = [], st_tagUsage = [], st_mapped = []\<rparr>"
  have "ns_inv (st_tags ?init)"
    by (simp add: ns_inv_def)
  moreover have "map_state mergeDict ds ?init = (ds', st)"
    using assms by (simp add: reconcile_def)
  ultimately have "ns_inv (st_tags st) \<and> st_le ?init st \<and> list_all2 (\<lambda>x y. dict_done st x y) ds ds'"
    by (rule map_state_step [where I = "\<lambda>s. ns_inv (st_tags s)" and Q = dict_done, rotated 2])
      (simp_all add: mergeDict_step dict_done_mono)
  then show "ns_inv (st_tags st)" and "list_all2 (dict_done st) ds ds'"
    by simp_all
qed

section \<open>The namespace that mergeTags returns\<close>

lemma map_of_filter_distinct:
  "distinct (map fst al) \<Longrightarrow>
     map_of (filter P al) k =
       (case map_of al k of None \<Rightarrow> None | Some v \<Rightarrow> if P (k, v) then Some v else None)"
proof (induction al)
  case Nil
  show ?case by simp
next
  case (Cons kv al)
  obtain k' v' where kv: "kv = (k', v')"
    by (cases kv)
  from Cons.prems have notin: "k' \<notin> fst ` set al" and d: "distinct (map fst al)"
    by (simp_all add: kv)
  from notin have none: "map_of al k' = None"
    by (simp add: map_of_eq_None_iff)
  show ?case
  proof (cases "k = k'")
    case True
    with none Cons.IH [OF d] show ?thesis
      by (simp add: kv)
  next
    case False
    with Cons.IH [OF d] show ?thesis
      by (simp add: kv)
  qed
qed

lemma map_of_cleanup:
  assumes "ns_inv ns" and "map_of ns i = Some e"
  shows "map_of (cleanup args usage ns) i =
     (if (deleteEmpty args \<and> isEmptyTag e) \<or> (deleteUnused args \<and> \<not> isUsed usage i)
      then None else Some e)"
  using assms by (simp add: cleanup_def ns_inv_def map_of_filter_distinct)

lemma cleanup_entries:
  assumes "ns_inv ns" and "(i, e) \<in> set (cleanup args usage ns)"
  shows "map_of ns i = Some e"
  using assms by (simp add: cleanup_def ns_inv_def)

lemma is_id_of_cases:
  "is_id_of n i \<longleftrightarrow> i = n \<or> (\<exists>k. 2 \<le> k \<and> i = n @ ''-'' @ show_nat k)"
proof
  assume "is_id_of n i"
  then obtain k where k: "1 \<le> k" "i = tag_id n k"
    by (auto simp: is_id_of_def)
  show "i = n \<or> (\<exists>k. 2 \<le> k \<and> i = n @ ''-'' @ show_nat k)"
  proof (cases "k = 1")
    case True
    with k show ?thesis by (simp add: tag_id_def)
  next
    case False
    with k have "2 \<le> k" "i = n @ ''-'' @ show_nat k"
      by (simp_all add: tag_id_def)
    then show ?thesis by blast
  qed
next
  assume "i = n \<or> (\<exists>k. 2 \<le> k \<and> i = n @ ''-'' @ show_nat k)"
  then show "is_id_of n i"
  proof
    assume "i = n"
    then have "1 \<le> (1::nat) \<and> i = tag_id n 1"
      by (simp add: tag_id_def)
    then show ?thesis unfolding is_id_of_def by blast
  next
    assume "\<exists>k. 2 \<le> k \<and> i = n @ ''-'' @ show_nat k"
    then obtain k where "2 \<le> k" "i = n @ ''-'' @ show_nat k" by blast
    then have "1 \<le> k \<and> i = tag_id n k"
      by (simp add: tag_id_def)
    then show ?thesis unfolding is_id_of_def by blast
  qed
qed

lemma probe_keeps_names:
  assumes "map_of ns j = Some e"
  shows "\<exists>e'. map_of (snd (probe ns tag n c)) j = Some e' \<and> name e' = name e"
proof -
  obtain i ns' where p: "probe ns tag n c = (i, ns')"
    by (cases "probe ns tag n c")
  from p obtain k e0 where ns': "ns' = AList.update i e0 ns"
    and e0: "map_of ns i = None \<and> e0 = tag
         \<or> (\<exists>cur. map_of ns i = Some cur \<and> canMerge tag cur \<and> e0 = fill cur tag)"
    by (rule probe_elim)
  show ?thesis
  proof (cases "j = i")
    case True
    with assms e0 have "e0 = fill e tag" by auto
    with True show ?thesis
      by (simp add: p ns' update_conv' fill_def)
  next
    case False
    with assms show ?thesis
      by (simp add: p ns' update_conv')
  qed
qed

lemma probe_stores_candidate:
  assumes "map_of ns (fst (probe ns tag n c)) = None"
  shows "map_of (snd (probe ns tag n c)) (fst (probe ns tag n c)) = Some tag"
proof -
  obtain i ns' where p: "probe ns tag n c = (i, ns')"
    by (cases "probe ns tag n c")
  from p obtain k e0 where ns': "ns' = AList.update i e0 ns"
    and e0: "map_of ns i = None \<and> e0 = tag
         \<or> (\<exists>cur. map_of ns i = Some cur \<and> canMerge tag cur \<and> e0 = fill cur tag)"
    by (rule probe_elim)
  from assms p e0 have "e0 = tag" by auto
  then show ?thesis
    by (simp add: p ns' update_conv')
qed

text \<open>
  Claim C8. In the namespace that \<open>mergeTags\<close> returns the ids are distinct, and the id
  of every entry is the name of its tag or that name followed by \<open>-k\<close> for a counter
  \<open>k\<close> of at least 2. The stored name is the name the entry was made with: a new entry
  is the candidate itself, and neither merging nor any later resolution changes the name
  of an entry.
\<close>

theorem namespace_ids_and_names:
  "(\<forall>(i, t) \<in> set (fst (mergeTags ds args)).
       i = name t \<or> (\<exists>k. 2 \<le> k \<and> i = name t @ ''-'' @ show_nat k))
   \<and> distinct (map fst (fst (mergeTags ds args)))
   \<and> name (fill current tag) = name current
   \<and> name (candidate (byName_of ts) n) = n
   \<and> (map_of ns (fst (probe ns tag n c)) = None \<longrightarrow>
        map_of (snd (probe ns tag n c)) (fst (probe ns tag n c)) = Some tag)
   \<and> (map_of ns j = Some e \<longrightarrow>
        (\<exists>e'. map_of (snd (probe ns tag n c)) j = Some e' \<and> name e' = name e))"
proof -
  obtain ds' st where r: "reconcile ds = (ds', st)"
    by (cases "reconcile ds")
  then have inv: "ns_inv (st_tags st)"
    by (rule reconcile_step)
  have ns: "fst (mergeTags ds args) = cleanup args (st_tagUsage st) (st_tags st)"
    by (simp add: mergeTags_def r)
  have 1: "\<forall>(i, t) \<in> set (fst (mergeTags ds args)).
       i = name t \<or> (\<exists>k. 2 \<le> k \<and> i = name t @ ''-'' @ show_nat k)"
  proof (clarify)
    fix i t assume "(i, t) \<in> set (fst (mergeTags ds args))"
      and "\<not> (\<exists>k. 2 \<le> k \<and> i = name t @ ''-'' @ show_nat k)"
    then have "map_of (st_tags st) i = Some t"
      unfolding ns using inv cleanup_entries by blast
    with inv have "is_id_of (name t) i"
      by (simp add: ns_inv_def)
    with \<open>\<not> (\<exists>k. 2 \<le> k \<and> i = name t @ ''-'' @ show_nat k)\<close> show "i = name t"
      unfolding is_id_of_cases by blast
  qed
  have 2: "distinct (map fst (fst (mergeTags ds args)))"
    unfolding ns cleanup_def using inv by (simp add: ns_inv_def distinct_map_filter)
  have 3: "name (fill current tag) = name current"
    by (simp add: fill_def)
  have 4: "name (candidate (byName_of ts) n) = n"
    using byName_of_names [of ts n] by (simp add: candidate_def split: option.splits)
  have 5: "map_of ns (fst (probe ns tag n c)) = None \<longrightarrow>
        map_of (snd (probe ns tag n c)) (fst (probe ns tag n c)) = Some tag"
    using probe_stores_candidate by blast
  have 6: "map_of ns j = Some e \<longrightarrow>
        (\<exists>e'. map_of (snd (probe ns tag n c)) j = Some e' \<and> name e' = name e)"
    using probe_keeps_names by blast
  show ?thesis
    by (intro conjI; (rule 1 2 3 4 5 6))
qed

lemma show_nat_2: "show_nat 2 = ''2''"
  by code_simp

theorem namespace_ids_and_names_witness:
  "fst (mergeTags
     [tags_only \<lparr>title = ''JMdict'', format = 3, revision = ''1'', sequenced = True\<rparr>
        [\<lparr>name = ''v5'', category = ''verb'', order = 1, description = ''Godan verb'', score = 0\<rparr>],
      tags_only \<lparr>title = ''Other'', format = 3, revision = ''2'', sequenced = False\<rparr>
        [\<lparr>name = ''v5'', category = ''version'', order = 0, description = [], score = 2\<rparr>]]
     default_args)
   = [(''v5'', \<lparr>name = ''v5'', category = ''verb'', order = 1, description = ''Godan verb'', score = 0\<rparr>),
      (''v5-2'', \<lparr>name = ''v5'', category = ''version'', order = 0, description = [], score = 2\<rparr>)]
   \<and> ''v5-2'' = name \<lparr>name = ''v5'', category = ''version'', order = 0, description = [], score = 2\<rparr>
        @ ''-'' @ show_nat 2"
proof -
  let ?a = "\<lparr>name = ''v5'', category = ''verb'', order = 1, description = ''Godan verb'', score = 0\<rparr>"
  let ?b = "\<lparr>name = ''v5'', category = ''version'', order = 0, description = [], score = 2\<rparr>"
  let ?ds = "[tags_only \<lparr>title = ''JMdict'', format = 3, revision = ''1'', sequenced = True\<rparr> [?a],
      tags_only \<lparr>title = ''Other'', format = 3, revision = ''2'', sequenced = False\<rparr> [?b]]"
  have ns: "fst (mergeTags ?ds default_args) = [(''v5'', ?a), (''v5-2'', ?b)]"
    using mergeTags_two_dictionaries [of ?b ?a] by (simp add: canMerge_def)
  show ?thesis
    using namespace_ids_and_names [of ?ds default_args ?a ?b "[?a]" "''v5''" "[(''v5'', ?a)]" 1
        "''v5''" ?a] ns
    by (simp add: show_nat_2)
qed

section \<open>References and defined tags\<close>











lemma byName_of_lookup:
  "map_of (foldl (\<lambda>m x. AList.update (name x) x m) m ts)
     = map_of m ++ map_of (map (\<lambda>x. (name x, x)) (rev ts))"
proof (induction ts arbitrary: m)
  case Nil
  show ?case by simp
next
  case (Cons x xs)
  have "map_of (foldl (\<lambda>m x. AList.update (name x) x m) m (x # xs))
      = map_of (AList.update (name x) x m) ++ map_of (map (\<lambda>x. (name x, x)) (rev xs))"
    using Cons.IH [of "AList.update (name x) x m"] by simp
  also have "\<dots> = (map_of m ++ [name x \<mapsto> x]) ++ map_of (map (\<lambda>x. (name x, x)) (rev xs))"
    by (simp add: update_conv')
  also have "\<dots> = map_of m ++ map_of (map (\<lambda>x. (name x, x)) (rev (x # xs)))"
    by (simp add: map_add_assoc del: map_add_upd)
  finally show ?case .
qed

lemma candidate_defined:
  assumes "distinct (map name ts)" and "t \<in> set ts"
  shows "candidate (byName_of ts) (name t) = t"
proof -
  have "distinct (map fst (map (\<lambda>x. (name x, x)) (rev ts)))"
    using assms(1) by (simp add: comp_def distinct_rev rev_map [symmetric])
  moreover have "(name t, t) \<in> set (map (\<lambda>x. (name x, x)) (rev ts))"
    using assms(2) by auto
  ultimately have "map_of (map (\<lambda>x. (name x, x)) (rev ts)) (name t) = Some t"
    by (rule map_of_is_SomeI)
  then have "map_of (byName_of ts) (name t) = Some t"
    by (simp add: byName_of_def byName_of_lookup)
  then show ?thesis
    by (simp add: candidate_def)
qed

text \<open>
  Against claim C7 as worded: with \<open>deleteUnused\<close> false and \<open>deleteEmpty\<close> set, a
  defined tag that has no category, description, order or score is not in the namespace
  that is returned.
\<close>

theorem mergeTags_deletes_empty_defined_tag:
  "mergeTags
     [tags_only \<lparr>title = ''JMdict'', format = 3, revision = ''1'', sequenced = True\<rparr>
        [\<lparr>name = ''arch'', category = [], order = 0, description = [], score = 0\<rparr>]]
     \<lparr>deleteUnused = False, deleteEmpty = True\<rparr>
   = ([],
      [tags_only \<lparr>title = ''JMdict'', format = 3, revision = ''1'', sequenced = True\<rparr>
        [\<lparr>name = ''arch'', category = [], order = 0, description = [], score = 0\<rparr>]])"
  by code_simp

text \<open>
  Claim C7, amended. When \<open>deleteUnused\<close> is false, every tag that a dictionary of the
  list defines is resolved, whether or not anything refers to it, to an id of its name
  whose entry in the namespace of the run absorbs the tag that the dictionary keeps under
  that name (the tag itself when the names of the dictionary's tags are distinct). The
  entry is in the namespace that is returned unless \<open>deleteEmpty\<close> is set and the entry
  has no category, description, order or score.
\<close>

theorem defined_tags_survive:
  "\<not> deleteUnused args \<Longrightarrow> d \<in> set ds \<Longrightarrow> t \<in> set (tags d) \<Longrightarrow>
     (\<exists>i e. is_id_of (name t) i
        \<and> map_of (st_tags (snd (reconcile ds))) i = Some e
        \<and> absorbs e (candidate (byName_of (tags d)) (name t))
        \<and> map_of (fst (mergeTags ds args)) i
             = (if deleteEmpty args \<and> isEmptyTag e then None else Some e))
     \<and> (distinct (map name (tags d)) \<longrightarrow> candidate (byName_of (tags d)) (name t) = t)"
proof -
  assume args: "\<not> deleteUnused args" and d: "d \<in> set ds" and t: "t \<in> set (tags d)"
  obtain ds' st where r: "reconcile ds = (ds', st)"
    by (cases "reconcile ds")
  note inv = reconcile_step [OF r]
  from inv(2) d obtain d' where "dict_done st d d'"
    by (induction rule: list_all2_induct) auto
  with t have "\<exists>i. resolved (byName_of (tags d)) st (name t) i"
    by (auto simp: dict_done_def split: if_splits)
  then obtain i e where i: "is_id_of (name t) i" and e: "map_of (st_tags st) i = Some e"
    and a: "absorbs e (candidate (byName_of (tags d)) (name t))"
    by (auto simp: resolved_def)
  have "map_of (fst (mergeTags ds args)) i = (if deleteEmpty args \<and> isEmptyTag e then None else Some e)"
    using map_of_cleanup [OF inv(1) e, of args "st_tagUsage st"] args
    by (simp add: mergeTags_def r)
  moreover have "snd (reconcile ds) = st"
    by (simp add: r)
  ultimately have "is_id_of (name t) i
        \<and> map_of (st_tags (snd (reconcile ds))) i = Some e
        \<and> absorbs e (candidate (byName_of (tags d)) (name t))
        \<and> map_of (fst (mergeTags ds args)) i
             = (if deleteEmpty args \<and> isEmptyTag e then None else Some e)"
    using i e a by (simp del: split_paired_Ex)
  then have "\<exists>i e. is_id_of (name t) i
        \<and> map_of (st_tags (snd (reconcile ds))) i = Some e
        \<and> absorbs e (candidate (byName_of (tags d)) (name t))
        \<and> map_of (fst (mergeTags ds args)) i
             = (if deleteEmpty args \<and> isEmptyTag e then None else Some e)"
    by (intro exI)
  moreover have "distinct (map name (tags d)) \<longrightarrow> candidate (byName_of (tags d)) (name t) = t"
    using candidate_defined [OF _ t] by blast
  ultimately show ?thesis by blast
qed

theorem defined_tags_survive_witness:
  "map_of (fst (mergeTags
     [tags_only \<lparr>title = ''JMdict'', format = 3, revision = ''1'', sequenced = True\<rparr>
        [\<lparr>name = ''v5'', category = ''verb'', order = 1, description = ''Godan verb'', score = 0\<rparr>],
      tags_only \<lparr>title = ''Other'', format = 3, revision = ''2'', sequenced = False\<rparr>
        [\<lparr>name = ''v5'', category = ''version'', order = 0, description = [], score = 2\<rparr>]]
     default_args)) ''v5-2''
   = Some \<lparr>name = ''v5'', category = ''version'', order = 0, description = [], score = 2\<rparr>
   \<and> (\<exists>i e. is_id_of ''v5'' i
        \<and> map_of (fst (mergeTags
             [tags_only \<lparr>title = ''JMdict'', format = 3, revision = ''1'', sequenced = True\<rparr>
                [\<lparr>name = ''v5'', category = ''verb'', order = 1, description = ''Godan verb'', score = 0\<rparr>],
              tags_only \<lparr>title = ''Other'', format = 3, revision = ''2'', sequenced = False\<rparr>
                [\<lparr>name = ''v5'', category = ''version'', order = 0, description = [], score = 2\<rparr>]]
             default_args)) i = Some e
        \<and> absorbs e \<lparr>name = ''v5'', category = ''version'', order = 0, description = [], score = 2\<rparr>)"
proof -
  let ?a = "\<lparr>name = ''v5'', category = ''verb'', order = 1, description = ''Godan verb'', score = 0\<rparr>"
  let ?b = "\<lparr>name = ''v5'', category = ''version'', order = 0, description = [], score = 2\<rparr>"
  let ?d2 = "tags_only \<lparr>title = ''Other'', format = 3, revision = ''2'', sequenced = False\<rparr> [?b]"
  let ?ds = "[tags_only \<lparr>title = ''JMdict'', format = 3, revision = ''1'', sequenced = True\<rparr> [?a], ?d2]"
  have ns: "fst (mergeTags ?ds default_args) = [(''v5'', ?a), (''v5-2'', ?b)]"
    using mergeTags_two_dictionaries [of ?b ?a] by (simp add: canMerge_def)
  have c: "candidate (byName_of (tags ?d2)) (name ?b) = ?b"
    by (simp add: candidate_def byName_of_def tags_only_def)
  have "\<not> deleteUnused default_args" "\<not> deleteEmpty default_args" "?d2 \<in> set ?ds" "?b \<in> set (tags ?d2)"
    by (simp_all add: default_args_def tags_only_def)
  with defined_tags_survive [of default_args ?d2 ?ds ?b] c
  have "\<exists>i e. is_id_of ''v5'' i \<and> map_of (fst (mergeTags ?ds default_args)) i = Some e \<and> absorbs e ?b"
    by auto
  then show ?thesis
    by (simp add: ns)
qed

end
